theory Spec2Isabelle
  imports Main "HOL-Library.Word"
begin

unbundle bit_operations_syntax

section \<open>The work queue of sdlwork.c\<close>

text \<open>
  A shallow embedding of \<^verbatim>\<open>src/osd/sdl/sdlwork.c\<close>: the scalable lock, the work queue
  with its pending list and free list, submission, the drain loop of a worker, waiting
  and tear-down. Pointers to work items and to events are addresses into two stores;
  \<^verbatim>\<open>NULL\<close> is \<open>None\<close>. Every dereference of a null or dead pointer and every loop that
  cannot leave is a value of type \<open>fault\<close>.
\<close>

subsection \<open>Parameters\<close>

definition MAX_THREADS :: "32 word" where
  "MAX_THREADS = 16"

text \<open>Counting the cells of an array that satisfy a predicate, across one write.\<close>

lemma count_list_update:
  "i < length xs \<Longrightarrow>
   length (filter P (xs[i := v])) + (if P (xs ! i) then 1 else 0) =
   length (filter P xs) + (if P v then 1 else (0::nat))"
proof (induction xs arbitrary: i)
  case Nil
  then show ?case by simp
next
  case (Cons x xs)
  then show ?case by (cases i) auto
qed

subsection \<open>Scalable lock\<close>

text \<open>
  \<^verbatim>\<open>struct _scalable_lock\<close>: one \<^verbatim>\<open>haslock\<close> per slot (the filler bytes carry no
  state) and \<^verbatim>\<open>nextindex\<close>. \<^verbatim>\<open>haslock\<close> only ever holds \<^verbatim>\<open>TRUE\<close> or \<^verbatim>\<open>FALSE\<close>.
\<close>

record scalable_lock =
  slot :: "bool list"
  nextindex :: "32 word"

text \<open>
  Modelled from the spec: \<^verbatim>\<open>osd_sync_add\<close> and \<^verbatim>\<open>osd_compare_exchange32\<close> come from
  \<^verbatim>\<open>osinline.h\<close>, which is not among the sources. The spec lists them as
  \<^verbatim>\<open>atomic_add_i32\<close> and \<^verbatim>\<open>atomic_cas_i32\<close>; the addition returns the new value (the
  caller subtracts one to get the value it incremented), the compare-and-swap returns the
  value it found and stores the exchange value when that equals the comparand.
\<close>

definition osd_sync_add :: "32 word \<Rightarrow> 32 word \<Rightarrow> 32 word \<times> 32 word" where
  "osd_sync_add cell delta = (cell + delta, cell + delta)"

definition osd_interlocked_increment :: "32 word \<Rightarrow> 32 word \<times> 32 word" where
  "osd_interlocked_increment cell = osd_sync_add cell 1"

definition osd_interlocked_decrement :: "32 word \<Rightarrow> 32 word \<times> 32 word" where
  "osd_interlocked_decrement cell = osd_sync_add cell (- 1)"

definition osd_interlocked_add :: "32 word \<Rightarrow> 32 word \<Rightarrow> 32 word \<times> 32 word" where
  "osd_interlocked_add cell delta = osd_sync_add cell delta"

definition osd_compare_exchange32 :: "bool \<Rightarrow> bool \<Rightarrow> bool \<Rightarrow> bool \<times> bool" where
  "osd_compare_exchange32 cell compare exchange =
     (cell, if cell = compare then exchange else cell)"

text \<open>\<^verbatim>\<open>osd_exchange32\<close>: the loop leaves at once when no other thread writes the cell.\<close>

definition osd_exchange32 :: "bool \<Rightarrow> bool \<Rightarrow> bool \<times> bool" where
  "osd_exchange32 cell exchange = osd_compare_exchange32 cell cell exchange"

definition scalable_lock_init :: scalable_lock where
  "scalable_lock_init =
     \<lparr>slot = (replicate (unat MAX_THREADS) False)[0 := True], nextindex = 0\<rparr>"

text \<open>
  \<^verbatim>\<open>scalable_lock_acquire\<close> in its two atomic parts: the ticket (line 193) and one
  attempt of the compare-and-swap of the spin loop (line 196). A failed attempt only
  yields the processor and doubles the back-off, which is no state of the lock.
\<close>

definition lock_ticket :: "scalable_lock \<Rightarrow> 32 word \<times> scalable_lock" where
  "lock_ticket l =
     (let (r, n) = osd_interlocked_increment (nextindex l)
      in ((r - 1) AND (MAX_THREADS - 1), l\<lparr>nextindex := n\<rparr>))"

definition lock_try :: "scalable_lock \<Rightarrow> 32 word \<Rightarrow> bool \<times> scalable_lock" where
  "lock_try l myslot =
     (let (old, new) = osd_compare_exchange32 (slot l ! unat myslot) True False
      in (old, l\<lparr>slot := (slot l)[unat myslot := new]\<rparr>))"

text \<open>
  Run by one thread alone, the spin loop leaves on its first attempt or never: nobody
  else passes the baton. Never leaving is \<open>None\<close>.
\<close>

definition scalable_lock_acquire :: "scalable_lock \<Rightarrow> (32 word \<times> scalable_lock) option" where
  "scalable_lock_acquire l =
     (let (myslot, l1) = lock_ticket l; (got, l2) = lock_try l1 myslot
      in if got then Some (myslot, l2) else None)"

definition scalable_lock_release :: "scalable_lock \<Rightarrow> 32 word \<Rightarrow> scalable_lock" where
  "scalable_lock_release l myslot =
     (let i = unat ((myslot + 1) AND (MAX_THREADS - 1));
          (old, new) = osd_exchange32 (slot l ! i) True
      in l\<lparr>slot := (slot l)[i := new]\<rparr>)"

text \<open>
  Threads contending for the lock. Each thread is outside the lock, spinning on the slot
  of its ticket, or inside the critical section with the ticket it will release; both
  callers in the file release with the ticket that acquire returned. A schedule is a list
  of atomic actions, each naming the thread that moves; an action that its thread cannot
  take leaves the state as it is.
\<close>

datatype lock_thread = Outside | Spinning "32 word" | Holding "32 word"

datatype lock_action = Ticket nat | Attempt nat | Release nat

record lock_system =
  the_lock :: scalable_lock
  lthreads :: "lock_thread list"

definition lock_system_init :: "nat \<Rightarrow> lock_system" where
  "lock_system_init n = \<lparr>the_lock = scalable_lock_init, lthreads = replicate n Outside\<rparr>"

fun lock_step :: "lock_system \<Rightarrow> lock_action \<Rightarrow> lock_system" where
  "lock_step s (Ticket t) =
     (if t < length (lthreads s) \<and> lthreads s ! t = Outside
      then let (myslot, l) = lock_ticket (the_lock s)
           in s\<lparr>the_lock := l, lthreads := (lthreads s)[t := Spinning myslot]\<rparr>
      else s)"
| "lock_step s (Attempt t) =
     (if t < length (lthreads s)
      then (case lthreads s ! t of
              Spinning myslot \<Rightarrow>
                (let (got, l) = lock_try (the_lock s) myslot
                 in if got then s\<lparr>the_lock := l, lthreads := (lthreads s)[t := Holding myslot]\<rparr>
                    else s\<lparr>the_lock := l\<rparr>)
            | _ \<Rightarrow> s)
      else s)"
| "lock_step s (Release t) =
     (if t < length (lthreads s)
      then (case lthreads s ! t of
              Holding myslot \<Rightarrow>
                s\<lparr>the_lock := scalable_lock_release (the_lock s) myslot,
                  lthreads := (lthreads s)[t := Outside]\<rparr>
            | _ \<Rightarrow> s)
      else s)"

definition lock_run :: "nat \<Rightarrow> lock_action list \<Rightarrow> lock_system" where
  "lock_run n sched = foldl lock_step (lock_system_init n) sched"

definition batons :: "scalable_lock \<Rightarrow> nat" where
  "batons l = length (filter (\<lambda>b. b) (slot l))"

fun is_holding :: "lock_thread \<Rightarrow> bool" where
  "is_holding (Holding m) = True"
| "is_holding _ = False"

text \<open>The slot that a release by thread \<open>t\<close> is about to write, if \<open>t\<close> is in the lock.\<close>

definition release_target :: "lock_system \<Rightarrow> nat \<Rightarrow> nat option" where
  "release_target s t =
     (if t < length (lthreads s)
      then (case lthreads s ! t of
              Holding myslot \<Rightarrow> Some (unat ((myslot + 1) AND (MAX_THREADS - 1)))
            | _ \<Rightarrow> None)
      else None)"

text \<open>What every reachable state of the contending threads satisfies.\<close>

fun ticket_ok :: "lock_thread \<Rightarrow> bool" where
  "ticket_ok Outside = True"
| "ticket_ok (Spinning m) = (unat m < 16)"
| "ticket_ok (Holding m) = (unat m < 16)"

definition lock_inv :: "lock_system \<Rightarrow> bool" where
  "lock_inv s \<longleftrightarrow>
     length (slot (the_lock s)) = 16 \<and>
     batons (the_lock s) + length (filter is_holding (lthreads s)) = 1 \<and>
     (\<forall>x \<in> set (lthreads s). ticket_ok x)"

subsection \<open>Memory, events and threads\<close>

text \<open>
  \<^verbatim>\<open>void *\<close> values (the parameter and the result of a callback) are 64-bit words, and
  \<^verbatim>\<open>(UINT8 *)parambase + paramstep\<close> adds the sign-extended step. A pointer to a work item or
  to an event is an address into the store of its kind, \<^verbatim>\<open>NULL\<close> is \<open>None\<close>; a freed
  cell of a store is \<open>None\<close>. There is one queue, so a pointer to a queue is null or that
  queue.
\<close>

type_synonym ptr = "64 word"

datatype fault = NullDeref | BadPointer | DanglingPointer | Hang

datatype qhandle = NullQueue | TheQueue

text \<open>
  A value of type \<^verbatim>\<open>osd_work_item **\<close>: the address of \<^verbatim>\<open>queue->list\<close>, of the
  \<^verbatim>\<open>next\<close> field of an item, or of the local variable \<^verbatim>\<open>itemlist\<close> of
  \<^verbatim>\<open>osd_work_item_queue_multiple\<close>.
\<close>

datatype tailref = ListHead | NextOf nat | LocalItemlist

record osd_event =
  manualreset :: bool
  signalled :: bool

record work_item =
  next_item :: "nat option"
  queue :: qhandle
  callback :: "ptr \<Rightarrow> ptr"
  param :: ptr
  result :: ptr
  event :: "nat option"
  flags_item :: "32 word"
  done_flag :: bool

record mame_thread_info =
  queue_thread :: qhandle
  handle :: "nat option"
  wakeevent :: "nat option"
  active :: bool

text \<open>
  The fields of \<^verbatim>\<open>struct _osd_work_queue\<close> (\<^verbatim>\<open>list\<close> is \<open>list_head\<close>), followed by the
  memory the queue works on: the stores of items and events, the operating-system threads
  created so far (true while not joined), whether the block of the queue itself is
  allocated, the outcomes of the coming allocations (\<^verbatim>\<open>malloc\<close>, \<^verbatim>\<open>osd_event_alloc\<close>,
  \<^verbatim>\<open>osd_thread_create\<close>; each takes the head, and all succeed once the list is empty) and
  the tick rate of the platform.
\<close>

record world =
  lock :: scalable_lock
  list_head :: "nat option"
  tailptr :: tailref
  free :: "nat option"
  items :: "32 word"
  livethreads :: "32 word"
  waiting :: bool
  exiting :: bool
  threads :: "32 word"
  flags :: "32 word"
  thread :: "mame_thread_info list option"
  doneevent :: "nat option"
  item_mem :: "work_item option list"
  event_mem :: "osd_event option list"
  os_threads :: "bool list"
  queue_block :: bool
  alloc_plan :: "bool list"
  osd_ticks_per_second :: "64 word"

text \<open>
  Modelled from the spec: \<^verbatim>\<open>osdcore.h\<close> is not among the sources. The spec names the
  queue flags MULTI and IO as independent bits of a mask and the item flag AUTO_RELEASE;
  the values are those of the header of the emulator.
\<close>

definition WORK_QUEUE_FLAG_IO :: "32 word" where
  "WORK_QUEUE_FLAG_IO = 1"

definition WORK_QUEUE_FLAG_MULTI :: "32 word" where
  "WORK_QUEUE_FLAG_MULTI = 2"

definition WORK_ITEM_FLAG_AUTO_RELEASE :: "32 word" where
  "WORK_ITEM_FLAG_AUTO_RELEASE = 1"

text \<open>
  Modelled from the spec: the macro \<^verbatim>\<open>MIN\<close> comes from \<^verbatim>\<open>osdcomm.h\<close>, which is not
  among the sources; the spec says "clamp to 16". Its operands here are a \<^verbatim>\<open>UINT32\<close> and
  an \<^verbatim>\<open>int\<close>, so C compares them as unsigned.
\<close>

definition MIN_u32 :: "32 word \<Rightarrow> 32 word \<Rightarrow> 32 word" where
  "MIN_u32 x y = (if x < y then x else y)"

definition take_alloc :: "world \<Rightarrow> bool \<times> world" where
  "take_alloc w =
     (case alloc_plan w of [] \<Rightarrow> (True, w) | b # bs \<Rightarrow> (b, w\<lparr>alloc_plan := bs\<rparr>))"

text \<open>The cell of a store at an address; an address beyond the store holds nothing.\<close>

definition cell :: "'a option list \<Rightarrow> nat \<Rightarrow> 'a option" where
  "cell m a = (if a < length m then m ! a else None)"

definition get_item :: "world \<Rightarrow> nat \<Rightarrow> work_item option" where
  "get_item w a = cell (item_mem w) a"

definition put_item :: "nat \<Rightarrow> work_item \<Rightarrow> world \<Rightarrow> world" where
  "put_item a it w = w\<lparr>item_mem := (item_mem w)[a := Some it]\<rparr>"

definition get_event :: "world \<Rightarrow> nat \<Rightarrow> osd_event option" where
  "get_event w e = cell (event_mem w) e"

text \<open>
  Modelled from the spec: the events and threads of \<^verbatim>\<open>sdlsync.c\<close>, which is not among
  the sources. \<^verbatim>\<open>event_alloc(manual_reset, initially_signalled)\<close> gives a handle or null;
  \<^verbatim>\<open>event_set\<close> and \<^verbatim>\<open>event_reset\<close> write the signalled state; \<^verbatim>\<open>event_wait\<close>
  returns at once on a signalled event and otherwise suspends the caller, and an
  auto-reset event is reset by the wait it satisfies. While the caller is suspended the
  other threads run: what they do to the state is the parameter \<open>others\<close>. A null or
  freed handle is a fault.
\<close>

definition osd_event_alloc :: "bool \<Rightarrow> bool \<Rightarrow> world \<Rightarrow> nat option \<times> world" where
  "osd_event_alloc manual initial w =
     (let (ok, w1) = take_alloc w
      in if ok
         then (Some (length (event_mem w1)),
               w1\<lparr>event_mem := event_mem w1 @ [Some \<lparr>manualreset = manual, signalled = initial\<rparr>]\<rparr>)
         else (None, w1))"

definition write_event :: "nat option \<Rightarrow> bool \<Rightarrow> world \<Rightarrow> fault + world" where
  "write_event p v w =
     (case p of
        None \<Rightarrow> Inl NullDeref
      | Some e \<Rightarrow>
          (case get_event w e of
             None \<Rightarrow> Inl BadPointer
           | Some ev \<Rightarrow> Inr (w\<lparr>event_mem := (event_mem w)[e := Some (ev\<lparr>signalled := v\<rparr>)]\<rparr>)))"

definition osd_event_set :: "nat option \<Rightarrow> world \<Rightarrow> fault + world" where
  "osd_event_set p w = write_event p True w"

definition osd_event_reset :: "nat option \<Rightarrow> world \<Rightarrow> fault + world" where
  "osd_event_reset p w = write_event p False w"

definition event_taken :: "nat \<Rightarrow> world \<Rightarrow> fault + bool \<times> world" where
  "event_taken e w =
     (case get_event w e of
        None \<Rightarrow> Inl BadPointer
      | Some ev \<Rightarrow>
          if signalled ev
          then Inr (True, if manualreset ev then w
                          else w\<lparr>event_mem := (event_mem w)[e := Some (ev\<lparr>signalled := False\<rparr>)]\<rparr>)
          else Inr (False, w))"

definition osd_event_wait ::
  "(world \<Rightarrow> world) \<Rightarrow> nat option \<Rightarrow> 64 word \<Rightarrow> world \<Rightarrow> fault + bool \<times> world" where
  "osd_event_wait others p timeout w =
     (case p of
        None \<Rightarrow> Inl NullDeref
      | Some e \<Rightarrow>
          (case event_taken e w of
             Inl f \<Rightarrow> Inl f
           | Inr (got, w1) \<Rightarrow> if got then Inr (True, w1) else event_taken e (others w1)))"

definition osd_event_free :: "nat option \<Rightarrow> world \<Rightarrow> fault + world" where
  "osd_event_free p w =
     (case p of
        None \<Rightarrow> Inl NullDeref
      | Some e \<Rightarrow>
          (case get_event w e of
             None \<Rightarrow> Inl BadPointer
           | Some ev \<Rightarrow> Inr (w\<lparr>event_mem := (event_mem w)[e := None]\<rparr>)))"

definition osd_thread_create :: "world \<Rightarrow> nat option \<times> world" where
  "osd_thread_create w =
     (let (ok, w1) = take_alloc w
      in if ok then (Some (length (os_threads w1)), w1\<lparr>os_threads := os_threads w1 @ [True]\<rparr>)
         else (None, w1))"

definition osd_thread_wait_free :: "nat option \<Rightarrow> world \<Rightarrow> fault + world" where
  "osd_thread_wait_free p w =
     (case p of
        None \<Rightarrow> Inl NullDeref
      | Some h \<Rightarrow>
          if h < length (os_threads w) \<and> os_threads w ! h
          then Inr (w\<lparr>os_threads := (os_threads w)[h := False]\<rparr>)
          else Inl BadPointer)"

subsection \<open>Work items\<close>

definition bindf :: "fault + 'a \<Rightarrow> ('a \<Rightarrow> fault + 'b) \<Rightarrow> fault + 'b" where
  "bindf m f = (case m of Inl e \<Rightarrow> Inl e | Inr x \<Rightarrow> f x)"

text \<open>Reading a field through an item pointer; a freed or wild pointer is a fault.\<close>

definition read_item :: "world \<Rightarrow> nat \<Rightarrow> fault + work_item" where
  "read_item w a = (case get_item w a of None \<Rightarrow> Inl BadPointer | Some it \<Rightarrow> Inr it)"

text \<open>
  \<^verbatim>\<open>osd_work_item_wait\<close>. The spin loop of the case without an event yields the
  processor until the item is done or the time is up; the other threads run meanwhile.
\<close>

definition osd_work_item_wait ::
  "(world \<Rightarrow> world) \<Rightarrow> nat \<Rightarrow> 64 word \<Rightarrow> world \<Rightarrow> fault + bool \<times> world" where
  "osd_work_item_wait others a timeout w =
     bindf (read_item w a) (\<lambda>it.
       if done_flag it then Inr (True, w)
       else
         bindf (if event it = None
                then (let (e, w1) = osd_event_alloc True False w
                      in Inr (e, put_item a (it\<lparr>event := e\<rparr>) w1))
                else bindf (osd_event_reset (event it) w) (\<lambda>w1. Inr (event it, w1)))
           (\<lambda>(e, w1).
              bindf (if e = None then Inr (others w1)
                     else bindf (osd_event_wait others e timeout w1) (\<lambda>(got, w2). Inr w2))
                (\<lambda>w2. bindf (read_item w2 a) (\<lambda>it2. Inr (done_flag it2, w2)))))"

text \<open>
  \<^verbatim>\<open>osd_work_item_release\<close>. Its compare-and-swap loop leaves at its first round when no
  other thread writes \<^verbatim>\<open>queue->free\<close> in between.
\<close>

definition osd_work_item_release :: "(world \<Rightarrow> world) \<Rightarrow> nat \<Rightarrow> world \<Rightarrow> fault + world" where
  "osd_work_item_release others a w =
     bindf (osd_work_item_wait others a (100 * osd_ticks_per_second w) w) (\<lambda>(r, w1).
       bindf (read_item w1 a) (\<lambda>it.
         case queue it of
           NullQueue \<Rightarrow> Inl NullDeref
         | TheQueue \<Rightarrow> Inr ((put_item a (it\<lparr>next_item := free w1\<rparr>) w1)\<lparr>free := Some a\<rparr>)))"

definition osd_work_item_result :: "world \<Rightarrow> nat \<Rightarrow> fault + ptr" where
  "osd_work_item_result w a = bindf (read_item w a) (\<lambda>it. Inr (result it))"

subsection \<open>Draining\<close>

text \<open>
  The statements of \<^verbatim>\<open>worker_thread_process\<close> that complete an item (lines 702 to 715),
  one definition each, in the order of the source.
\<close>

definition store_result :: "nat \<Rightarrow> world \<Rightarrow> fault + world" where
  "store_result a w =
     bindf (read_item w a) (\<lambda>it. Inr (put_item a (it\<lparr>result := callback it (param it)\<rparr>) w))"

definition decrement_items :: "world \<Rightarrow> world" where
  "decrement_items w = w\<lparr>items := snd (osd_interlocked_decrement (items w))\<rparr>"

definition set_done :: "nat \<Rightarrow> world \<Rightarrow> fault + world" where
  "set_done a w = bindf (read_item w a) (\<lambda>it. Inr (put_item a (it\<lparr>done_flag := True\<rparr>) w))"

definition notify_done :: "(world \<Rightarrow> world) \<Rightarrow> nat \<Rightarrow> world \<Rightarrow> fault + world" where
  "notify_done others a w =
     bindf (read_item w a) (\<lambda>it.
       if flags_item it AND WORK_ITEM_FLAG_AUTO_RELEASE \<noteq> 0
       then osd_work_item_release others a w
       else if event it \<noteq> None then osd_event_set (event it) w
       else Inr w)"

text \<open>
  Lines 702 to 715 for the item at address \<open>a\<close>. The value is the list of the states
  that the four statements leave, one after the other in the order in which they run; the
  worker goes on in the last of them.
\<close>

definition process_item :: "(world \<Rightarrow> world) \<Rightarrow> nat \<Rightarrow> world \<Rightarrow> fault + world list" where
  "process_item others a w =
     bindf (store_result a w) (\<lambda>w1.
       bindf (Inr (decrement_items w1)) (\<lambda>w2.
         bindf (set_done a w2) (\<lambda>w3.
           bindf (notify_done others a w3) (\<lambda>w4. Inr [w1, w2, w3, w4]))))"

text \<open>
  The critical section of \<^verbatim>\<open>worker_thread_process\<close> (lines 684 to 696): take the head
  of the pending list under the lock. The lock spinning forever is the fault \<open>Hang\<close>.
\<close>

definition pop_item :: "world \<Rightarrow> fault + nat option \<times> world" where
  "pop_item w =
     (case scalable_lock_acquire (lock w) of
        None \<Rightarrow> Inl Hang
      | Some (lockslot, l) \<Rightarrow>
          bindf (case list_head w of
                   None \<Rightarrow> Inr (None, w\<lparr>lock := l\<rparr>)
                 | Some a \<Rightarrow>
                     bindf (read_item w a) (\<lambda>it.
                       Inr (Some a,
                            w\<lparr>lock := l, list_head := next_item it,
                              tailptr := (if next_item it = None then ListHead else tailptr w)\<rparr>)))
            (\<lambda>(item, w1). Inr (item, w1\<lparr>lock := scalable_lock_release (lock w1) lockslot\<rparr>)))"

text \<open>Facts that the termination of the drain loop rests on.\<close>

lemma bindf_Inr_iff: "bindf m f = Inr y \<longleftrightarrow> (\<exists>x. m = Inr x \<and> f x = Inr y)"
  by (cases m) (simp_all add: bindf_def)

lemma bindf_Inr [simp]: "bindf (Inr x) f = f x"
  by (simp add: bindf_def)

lemma bindf_Inl [simp]: "bindf (Inl e) f = Inl e"
  by (simp add: bindf_def)

lemma read_item_Inr_iff: "read_item w a = Inr it \<longleftrightarrow> get_item w a = Some it"
  by (simp add: read_item_def split: option.splits)

lemma items_put_item [simp]: "items (put_item a it w) = items w"
  by (simp add: put_item_def)

lemma get_item_put_same:
  "get_item w a = Some it0 \<Longrightarrow> get_item (put_item a it w) a = Some it"
  by (simp add: get_item_def cell_def put_item_def split: if_splits)

lemma pop_item_items: "pop_item w = Inr (x, w1) \<Longrightarrow> items w1 = items w"
  by (auto simp: pop_item_def bindf_Inr_iff read_item_Inr_iff split: option.splits prod.splits)

lemma store_result_items: "store_result a w = Inr w1 \<Longrightarrow> items w1 = items w"
  by (auto simp: store_result_def bindf_Inr_iff)

lemma set_done_items: "set_done a w = Inr w1 \<Longrightarrow> items w1 = items w"
  by (auto simp: set_done_def bindf_Inr_iff)

lemma set_done_done:
  "set_done a w = Inr w1 \<Longrightarrow> \<exists>it. get_item w1 a = Some it \<and> done_flag it"
  by (auto simp: set_done_def bindf_Inr_iff read_item_Inr_iff get_item_put_same)

lemma item_wait_done:
  "get_item w a = Some it \<Longrightarrow> done_flag it \<Longrightarrow> osd_work_item_wait others a t w = Inr (True, w)"
  by (simp add: osd_work_item_wait_def read_item_def)

lemma write_event_items: "write_event p v w = Inr w1 \<Longrightarrow> items w1 = items w"
  by (auto simp: write_event_def split: option.splits)

lemma notify_done_items:
  "get_item w a = Some it \<Longrightarrow> done_flag it \<Longrightarrow> notify_done others a w = Inr w1 \<Longrightarrow>
   items w1 = items w"
  by (auto simp: notify_done_def read_item_def osd_work_item_release_def item_wait_done
      osd_event_set_def bindf_Inr_iff dest: write_event_items split: if_splits qhandle.splits)

lemma process_item_items:
  "process_item others a w = Inr states \<Longrightarrow> items (last states) = items w - 1"
proof -
  assume "process_item others a w = Inr states"
  then obtain u v w1 where u: "store_result a w = Inr u"
    and v: "set_done a (decrement_items u) = Inr v" and n: "notify_done others a v = Inr w1"
    and l: "states = [u, decrement_items u, v, w1]"
    by (auto simp: process_item_def bindf_Inr_iff)
  from l have "items (last states) = items w1" by simp
  also from set_done_done [OF v] obtain it where i: "get_item v a = Some it" "done_flag it"
    by blast
  from i n have "items w1 = items v" by (rule notify_done_items)
  also from v have "\<dots> = items (decrement_items u)" by (rule set_done_items)
  also from u have "\<dots> = items w - 1"
    by (simp add: decrement_items_def osd_interlocked_decrement_def osd_sync_add_def
        store_result_items)
  finally show ?thesis .
qed

text \<open>
  \<^verbatim>\<open>worker_thread_process\<close>. Each round that takes an item decrements \<open>items\<close>, so the
  loop ends when every round takes one. A round that finds the list empty while \<open>items\<close>
  is not zero changes nothing but the lock, and no other thread runs: the loop never
  leaves, which is the fault \<open>Hang\<close>.
\<close>

function worker_thread_process :: "(world \<Rightarrow> world) \<Rightarrow> world \<Rightarrow> fault + world" where
  "worker_thread_process others w =
     (if items w \<noteq> 0
      then (case pop_item w of
              Inl f \<Rightarrow> Inl f
            | Inr (None, w1) \<Rightarrow> Inl Hang
            | Inr (Some a, w1) \<Rightarrow>
                (case process_item others a w1 of
                   Inl f \<Rightarrow> Inl f
                 | Inr states \<Rightarrow> worker_thread_process others (last states)))
      else if waiting w then osd_event_set (doneevent w) w else Inr w)"
  by pat_completeness auto
termination
proof (relation "measure (\<lambda>(others, w). unat (items w))")
  show "wf (measure (\<lambda>(others, w). unat (items w)))" by simp
next
  fix others :: "world \<Rightarrow> world" and w x2 x1 w1 x2a a states
  assume nz: "items w \<noteq> 0" and p: "pop_item w = Inr x2" and x: "(x1, w1) = x2"
    and s: "x1 = Some a" and q: "process_item others a w1 = Inr states"
  from p x have "items w1 = items w" by (metis pop_item_items)
  with q have "items (last states) = items w - 1" by (simp add: process_item_items)
  with nz have "unat (items (last states)) < unat (items w)"
    by (simp add: unat_minus_one unat_gt_0)
  then show "((others, last states), (others, w)) \<in> measure (\<lambda>(others, w). unat (items w))"
    by simp
qed


subsection \<open>Submission\<close>

text \<open>The local variables of \<^verbatim>\<open>osd_work_item_queue_multiple\<close> that the loop changes.\<close>

record submit_locals =
  itemlist :: "nat option"
  item_tailptr :: tailref
  parambase :: ptr

text \<open>
  The first attempt of the loop over the free list (lines 458 to 461); run alone, its
  compare-and-swap succeeds.
\<close>

definition take_free :: "world \<Rightarrow> fault + nat option \<times> world" where
  "take_free w =
     (case free w of
        None \<Rightarrow> Inr (None, w)
      | Some a \<Rightarrow> bindf (read_item w a) (\<lambda>it. Inr (Some a, w\<lparr>free := next_item it\<rparr>)))"

text \<open>
  \<^verbatim>\<open>malloc(sizeof(*item))\<close>. The content of the new block is indeterminate in C; every
  field is written before it is read, so the content chosen here is never seen.
\<close>

definition indeterminate_item :: work_item where
  "indeterminate_item =
     \<lparr>next_item = None, queue = NullQueue, callback = (\<lambda>p. p), param = 0, result = 0,
      event = None, flags_item = 0, done_flag = False\<rparr>"

definition malloc_item :: "world \<Rightarrow> nat option \<times> world" where
  "malloc_item w =
     (let (ok, w1) = take_alloc w
      in if ok
         then (Some (length (item_mem w1)),
               w1\<lparr>item_mem := item_mem w1 @ [Some indeterminate_item]\<rparr>)
         else (None, w1))"

text \<open>\<^verbatim>\<open>*item_tailptr = item\<close> (line 483).\<close>

definition store_ref ::
  "tailref \<Rightarrow> nat option \<Rightarrow> submit_locals \<Rightarrow> world \<Rightarrow> fault + submit_locals \<times> world" where
  "store_ref r v loc w =
     (case r of
        ListHead \<Rightarrow> Inr (loc, w\<lparr>list_head := v\<rparr>)
      | NextOf b \<Rightarrow> bindf (read_item w b) (\<lambda>it. Inr (loc, put_item b (it\<lparr>next_item := v\<rparr>) w))
      | LocalItemlist \<Rightarrow> Inr (loc\<lparr>itemlist := v\<rparr>, w))"

text \<open>
  One round of the loop of lines 453 to 486. The result \<open>None\<close> in place of the locals is
  the \<^verbatim>\<open>return NULL\<close> of line 469.
\<close>

definition build_item ::
  "(ptr \<Rightarrow> ptr) \<Rightarrow> 32 word \<Rightarrow> 32 word \<Rightarrow> submit_locals \<Rightarrow> world \<Rightarrow>
   fault + submit_locals option \<times> world" where
  "build_item cb paramstep fl loc w =
     bindf (take_free w) (\<lambda>(recycled, w1).
       bindf (case recycled of
                Some a \<Rightarrow> Inr (Some a, w1)
              | None \<Rightarrow>
                  (let (fresh, w2) = malloc_item w1
                   in case fresh of
                        None \<Rightarrow> Inr (None, w2)
                      | Some a \<Rightarrow>
                          bindf (read_item w2 a) (\<lambda>it.
                            Inr (Some a, put_item a (it\<lparr>event := None, queue := TheQueue\<rparr>) w2))))
         (\<lambda>(item, w2).
            case item of
              None \<Rightarrow> Inr (None, w2)
            | Some a \<Rightarrow>
                bindf (read_item w2 a) (\<lambda>it.
                  bindf (store_ref (item_tailptr loc) (Some a) loc
                           (put_item a
                              (it\<lparr>next_item := None, callback := cb, param := parambase loc,
                                  result := 0, flags_item := fl, done_flag := False\<rparr>) w2))
                    (\<lambda>(loc1, w3).
                       Inr (Some (loc1\<lparr>item_tailptr := NextOf a,
                                       parambase := parambase loc + scast paramstep\<rparr>), w3)))))"

fun build_items ::
  "nat \<Rightarrow> (ptr \<Rightarrow> ptr) \<Rightarrow> 32 word \<Rightarrow> 32 word \<Rightarrow> submit_locals \<Rightarrow> world \<Rightarrow>
   fault + submit_locals option \<times> world" where
  "build_items 0 cb paramstep fl loc w = Inr (Some loc, w)"
| "build_items (Suc k) cb paramstep fl loc w =
     bindf (build_item cb paramstep fl loc w) (\<lambda>(r, w1).
       case r of
         None \<Rightarrow> Inr (None, w1)
       | Some loc1 \<Rightarrow> build_items k cb paramstep fl loc1 w1)"

text \<open>
  The critical section of lines 489 to 492. \<^verbatim>\<open>queue->tailptr\<close> holding the address of
  the local \<^verbatim>\<open>itemlist\<close> can only stem from an earlier call, whose frame is gone:
  storing through it is the fault \<open>DanglingPointer\<close>.
\<close>

definition enqueue_chain :: "submit_locals \<Rightarrow> world \<Rightarrow> fault + world" where
  "enqueue_chain loc w =
     (case scalable_lock_acquire (lock w) of
        None \<Rightarrow> Inl Hang
      | Some (lockslot, l) \<Rightarrow>
          bindf (case tailptr w of
                   ListHead \<Rightarrow> Inr (w\<lparr>list_head := itemlist loc\<rparr>)
                 | NextOf b \<Rightarrow>
                     bindf (read_item w b) (\<lambda>it.
                       Inr (put_item b (it\<lparr>next_item := itemlist loc\<rparr>) w))
                 | LocalItemlist \<Rightarrow> Inl DanglingPointer)
            (\<lambda>w1. Inr (w1\<lparr>tailptr := item_tailptr loc,
                            lock := scalable_lock_release l lockslot\<rparr>)))"

text \<open>
  The loop of lines 504 to 518 over the thread records, with \<open>numitems\<close> counting down.
\<close>

fun wake_threads :: "mame_thread_info list \<Rightarrow> 32 word \<Rightarrow> world \<Rightarrow> fault + world" where
  "wake_threads [] numitems w = Inr w"
| "wake_threads (t # ts) numitems w =
     (if \<not> active t
      then bindf (osd_event_set (wakeevent t) w) (\<lambda>w1.
             if numitems - 1 = 0 then Inr w1 else wake_threads ts (numitems - 1) w1)
      else wake_threads ts numitems w)"

definition thread_records :: "world \<Rightarrow> fault + mame_thread_info list" where
  "thread_records w =
     (if threads w = 0 then Inr []
      else case thread w of
             None \<Rightarrow> Inl NullDeref
           | Some ts \<Rightarrow>
               if unat (threads w) \<le> length ts then Inr (take (unat (threads w)) ts)
               else Inl BadPointer)"

text \<open>
  Lines 447 to 496: build the chain, enqueue it and count it. \<open>None\<close> in place of the
  locals is the \<^verbatim>\<open>return NULL\<close> of line 469.
\<close>

definition build_and_enqueue ::
  "world \<Rightarrow> (ptr \<Rightarrow> ptr) \<Rightarrow> 32 word \<Rightarrow> ptr \<Rightarrow> 32 word \<Rightarrow> 32 word \<Rightarrow>
   fault + submit_locals option \<times> world" where
  "build_and_enqueue w cb numitems pbase paramstep fl =
     bindf (build_items (nat (sint numitems)) cb paramstep fl
              \<lparr>itemlist = None, item_tailptr = LocalItemlist, parambase = pbase\<rparr> w)
       (\<lambda>(r, w1).
          case r of
            None \<Rightarrow> Inr (None, w1)
          | Some loc \<Rightarrow>
              bindf (enqueue_chain loc w1) (\<lambda>w2.
                Inr (Some loc, w2\<lparr>items := snd (osd_interlocked_add (items w2) numitems)\<rparr>)))"

definition osd_work_item_queue_multiple ::
  "(world \<Rightarrow> world) \<Rightarrow> world \<Rightarrow> (ptr \<Rightarrow> ptr) \<Rightarrow> 32 word \<Rightarrow> ptr \<Rightarrow> 32 word \<Rightarrow> 32 word \<Rightarrow>
   fault + nat option \<times> world" where
  "osd_work_item_queue_multiple others w cb numitems pbase paramstep fl =
     bindf (build_and_enqueue w cb numitems pbase paramstep fl)
       (\<lambda>(r, w3).
          case r of
            None \<Rightarrow> Inr (None, w3)
          | Some loc \<Rightarrow>
              bindf (if livethreads w3 < threads w3
                     then bindf (thread_records w3) (\<lambda>ts. wake_threads ts numitems w3)
                     else Inr w3)
                (\<lambda>w4.
                   bindf (if threads w4 = 0 then worker_thread_process others w4 else Inr w4)
                     (\<lambda>w5.
                        Inr (if fl AND WORK_ITEM_FLAG_AUTO_RELEASE \<noteq> 0 then None
                             else itemlist loc, w5))))"

subsection \<open>Waiting for the queue\<close>

definition osd_work_queue_items :: "world \<Rightarrow> 32 word" where
  "osd_work_queue_items w = items w"

definition osd_work_queue_wait ::
  "(world \<Rightarrow> world) \<Rightarrow> world \<Rightarrow> 64 word \<Rightarrow> fault + bool \<times> world" where
  "osd_work_queue_wait others w timeout =
     (if threads w = 0 then Inr (True, w)
      else if items w = 0 then Inr (True, w)
      else if flags w AND WORK_QUEUE_FLAG_MULTI \<noteq> 0
      then bindf (worker_thread_process others w) (\<lambda>w1. Inr (True, w1))
      else
        bindf (osd_event_reset (doneevent w) w) (\<lambda>w1.
          bindf (let w2 = w1\<lparr>waiting := True\<rparr>
                 in if items w2 \<noteq> 0
                    then bindf (osd_event_wait others (doneevent w2) timeout w2)
                           (\<lambda>(got, w3). Inr w3)
                    else Inr w2)
            (\<lambda>w3. let w4 = w3\<lparr>waiting := False\<rparr> in Inr (items w4 = 0, w4))))"

subsection \<open>Allocating and freeing the queue\<close>

text \<open>
  What \<^verbatim>\<open>effective_num_processors\<close> reads: the value of the environment variable
  \<^verbatim>\<open>OSDPROCESSORS\<close> if it is set, the C library's \<^verbatim>\<open>sscanf\<close> with format \<^verbatim>\<open>%d\<close>
  (the number it stores when it converts one, \<open>None\<close> when it converts nothing), and the
  count that the platform's \<^verbatim>\<open>osd_num_processors\<close> reports.
\<close>

record environment =
  getenv_OSDPROCESSORS :: "string option"
  sscanf_d :: "string \<Rightarrow> 32 word option"
  osd_num_processors :: "32 word"

definition effective_num_processors :: "environment \<Rightarrow> 32 word" where
  "effective_num_processors env =
     (case getenv_OSDPROCESSORS env of
        None \<Rightarrow> osd_num_processors env
      | Some procsoverride \<Rightarrow>
          (case sscanf_d env procsoverride of
             None \<Rightarrow> osd_num_processors env
           | Some numprocs \<Rightarrow> if 0 <s numprocs then numprocs else osd_num_processors env))"

text \<open>Lines 242 to 250: the number of threads for a processor count and the flags.\<close>

definition choose_threads :: "32 word \<Rightarrow> 32 word \<Rightarrow> 32 word" where
  "choose_threads numprocs fl =
     MIN_u32 (if numprocs = 1
              then (if fl AND WORK_QUEUE_FLAG_IO \<noteq> 0 then 1 else 0)
              else (if fl AND WORK_QUEUE_FLAG_MULTI \<noteq> 0 then numprocs - 1 else 1))
       MAX_THREADS"

definition thread_at :: "world \<Rightarrow> nat \<Rightarrow> fault + mame_thread_info" where
  "thread_at w i =
     (case thread w of
        None \<Rightarrow> Inl NullDeref
      | Some ts \<Rightarrow> if i < length ts then Inr (ts ! i) else Inl BadPointer)"

definition set_thread :: "nat \<Rightarrow> mame_thread_info \<Rightarrow> world \<Rightarrow> world" where
  "set_thread i t w = w\<lparr>thread := map_option (\<lambda>ts. ts[i := t]) (thread w)\<rparr>"

text \<open>The loop of lines 364 to 369.\<close>

fun signal_exit :: "nat list \<Rightarrow> world \<Rightarrow> fault + world" where
  "signal_exit [] w = Inr w"
| "signal_exit (i # rest) w =
     bindf (thread_at w i) (\<lambda>t.
       bindf (if wakeevent t \<noteq> None then osd_event_set (wakeevent t) w else Inr w)
         (signal_exit rest))"

text \<open>The loop of lines 372 to 385.\<close>

fun join_threads :: "nat list \<Rightarrow> world \<Rightarrow> fault + world" where
  "join_threads [] w = Inr w"
| "join_threads (i # rest) w =
     bindf (thread_at w i) (\<lambda>t.
       bindf (if handle t \<noteq> None then osd_thread_wait_free (handle t) w else Inr w) (\<lambda>w1.
         bindf (if wakeevent t \<noteq> None then osd_event_free (wakeevent t) w1 else Inr w1)
           (join_threads rest)))"

text \<open>
  The loops of lines 410 to 427, from the head they start at: free the event of the item
  if it has one, then the item. The head field of the queue is the loop variable and is
  null when the loop leaves. Meeting a freed item again is a fault, so every round frees
  one more item.
\<close>

definition live_items :: "world \<Rightarrow> nat" where
  "live_items w = length (filter (\<lambda>c. c \<noteq> None) (item_mem w))"

lemma osd_event_free_item_mem: "osd_event_free p w = Inr w1 \<Longrightarrow> item_mem w1 = item_mem w"
  by (auto simp: osd_event_free_def split: option.splits)

lemma live_items_free:
  assumes "get_item w a = Some it"
  shows "live_items (w\<lparr>item_mem := (item_mem w)[a := None]\<rparr>) < live_items w"
proof -
  from assms have a: "a < length (item_mem w)" and l: "item_mem w ! a \<noteq> None"
    by (auto simp: get_item_def cell_def split: if_splits)
  from count_list_update [OF a, of "\<lambda>c. c \<noteq> None" None] l
  show ?thesis by (simp add: live_items_def)
qed

function release_chain :: "nat option \<Rightarrow> world \<Rightarrow> fault + world" where
  "release_chain p w =
     (case p of
        None \<Rightarrow> Inr w
      | Some a \<Rightarrow>
          (case get_item w a of
             None \<Rightarrow> Inl BadPointer
           | Some it \<Rightarrow>
               (case (if event it \<noteq> None then osd_event_free (event it) w else Inr w) of
                  Inl f \<Rightarrow> Inl f
                | Inr w1 \<Rightarrow>
                    release_chain (next_item it) (w1\<lparr>item_mem := (item_mem w1)[a := None]\<rparr>))))"
  by pat_completeness auto
termination
proof (relation "measure (\<lambda>(p, w). live_items w)")
  show "wf (measure (\<lambda>(p, w). live_items w))" by simp
next
  fix p :: "nat option" and w a it w1
  assume g: "get_item w a = Some it"
    and e: "(if event it \<noteq> None then osd_event_free (event it) w else Inr w) = Inr w1"
  from e have m: "item_mem w1 = item_mem w"
    by (auto simp: osd_event_free_item_mem split: if_splits)
  with g have "get_item w1 a = Some it" by (simp add: get_item_def)
  then have "live_items (w1\<lparr>item_mem := (item_mem w1)[a := None]\<rparr>) < live_items w1"
    by (rule live_items_free)
  with m show "((next_item it, w1\<lparr>item_mem := (item_mem w1)[a := None]\<rparr>), (p, w))
      \<in> measure (\<lambda>(p, w). live_items w)"
    by (simp add: live_items_def)
qed

definition osd_work_queue_free :: "qhandle \<Rightarrow> world \<Rightarrow> fault + world" where
  "osd_work_queue_free q w =
     (case q of
        NullQueue \<Rightarrow> Inl NullDeref
      | TheQueue \<Rightarrow>
          bindf (if 0 < threads w \<and> thread w \<noteq> None
                 then (let w1 = w\<lparr>exiting := True\<rparr>
                       in bindf (signal_exit [0..<unat (threads w1)] w1) (\<lambda>w2.
                            bindf (join_threads [0..<unat (threads w2)] w2) (\<lambda>w3.
                              Inr (w3\<lparr>thread := None\<rparr>))))
                 else Inr w)
            (\<lambda>w1.
               bindf (if doneevent w1 \<noteq> None then osd_event_free (doneevent w1) w1 else Inr w1)
                 (\<lambda>w2.
                    bindf (release_chain (free w2) w2) (\<lambda>w3.
                      bindf (release_chain (list_head w3) (w3\<lparr>free := None\<rparr>)) (\<lambda>w4.
                        Inr (w4\<lparr>list_head := None, queue_block := False\<rparr>))))))"

text \<open>\<^verbatim>\<open>memset(queue, 0, sizeof(*queue))\<close> on the block just allocated.\<close>

definition zero_queue :: "world \<Rightarrow> world" where
  "zero_queue w =
     w\<lparr>queue_block := True,
       lock := \<lparr>slot = replicate (unat MAX_THREADS) False, nextindex = 0\<rparr>,
       list_head := None, free := None, items := 0, livethreads := 0, waiting := False,
       exiting := False, threads := 0, flags := 0, thread := None, doneevent := None\<rparr>"

definition zero_thread :: mame_thread_info where
  "zero_thread = \<lparr>queue_thread = NullQueue, handle = None, wakeevent = None, active = False\<rparr>"

text \<open>
  The loop of lines 259 to 282; \<open>False\<close> is the \<^verbatim>\<open>goto error\<close>. What the new thread
  does once it runs belongs to \<open>others\<close>; \<^verbatim>\<open>osd_thread_adjust_priority\<close> changes no state
  of the queue.
\<close>

fun start_threads :: "nat list \<Rightarrow> world \<Rightarrow> fault + bool \<times> world" where
  "start_threads [] w = Inr (True, w)"
| "start_threads (i # rest) w =
     bindf (thread_at w i) (\<lambda>t.
       let (e, w1) = osd_event_alloc False False w;
           t1 = t\<lparr>queue_thread := TheQueue, wakeevent := e\<rparr>;
           w2 = set_thread i t1 w1
       in if e = None then Inr (False, w2)
          else (let (h, w3) = osd_thread_create w2;
                    w4 = set_thread i (t1\<lparr>handle := h\<rparr>) w3
                in if h = None then Inr (False, w4) else start_threads rest w4))"

definition alloc_error :: "qhandle \<Rightarrow> world \<Rightarrow> fault + qhandle \<times> world" where
  "alloc_error q w = bindf (osd_work_queue_free q w) (\<lambda>w1. Inr (NullQueue, w1))"

definition osd_work_queue_alloc ::
  "environment \<Rightarrow> 32 word \<Rightarrow> world \<Rightarrow> fault + qhandle \<times> world" where
  "osd_work_queue_alloc env fl w =
     (let numprocs = effective_num_processors env;
          (ok, w1) = take_alloc w
      in if \<not> ok then alloc_error NullQueue w1
         else
           (let w2 = (zero_queue w1)\<lparr>tailptr := ListHead, flags := fl\<rparr>;
                (e, w3) = osd_event_alloc True True w2;
                w4 = w3\<lparr>doneevent := e\<rparr>
            in if e = None then alloc_error TheQueue w4
               else
                 (let w5 = w4\<lparr>lock := scalable_lock_init,
                              threads := choose_threads numprocs fl\<rparr>;
                      (ok2, w6) = take_alloc w5
                  in if \<not> ok2 then alloc_error TheQueue w6
                     else
                       bindf (start_threads [0..<unat (threads w6)]
                                (w6\<lparr>thread := Some (replicate (unat (threads w6) + 1)
                                                       zero_thread)\<rparr>))
                         (\<lambda>(ok3, w7).
                            if ok3 then Inr (TheQueue, w7) else alloc_error TheQueue w7))))"

text \<open>A machine before any queue exists: nothing allocated, the fields of no meaning.\<close>

definition boot :: "bool list \<Rightarrow> 64 word \<Rightarrow> world" where
  "boot plan tps =
     \<lparr>lock = \<lparr>slot = [], nextindex = 0\<rparr>, list_head = None, tailptr = ListHead, free = None,
      items = 0, livethreads = 0, waiting = False, exiting = False, threads = 0, flags = 0,
      thread = None, doneevent = None, item_mem = [], event_mem = [], os_threads = [],
      queue_block = False, alloc_plan = plan, osd_ticks_per_second = tps\<rparr>"

subsection \<open>Observing the completion of an item\<close>

text \<open>
  The fields of an item that a waiter reads, the count of the queue and whether the event
  of the item is signalled.
\<close>

definition item_field :: "(work_item \<Rightarrow> 'a) \<Rightarrow> world \<Rightarrow> nat \<Rightarrow> 'a option" where
  "item_field f w a = map_option f (get_item w a)"

definition item_event_signalled :: "world \<Rightarrow> nat \<Rightarrow> bool option" where
  "item_event_signalled w a =
     (case get_item w a of
        None \<Rightarrow> None
      | Some it \<Rightarrow> (case event it of None \<Rightarrow> None | Some e \<Rightarrow> map_option signalled (get_event w e)))"

definition completion_view :: "world \<Rightarrow> nat \<Rightarrow> ptr option \<times> 32 word \<times> bool option \<times> bool option" where
  "completion_view w a =
     (item_field result w a, items w, item_field done_flag w a, item_event_signalled w a)"

text \<open>What \<open>notify_done\<close> does to a finished item.\<close>

definition notified :: "nat \<Rightarrow> work_item \<Rightarrow> world \<Rightarrow> world" where
  "notified a it w =
     (if flags_item it AND WORK_ITEM_FLAG_AUTO_RELEASE \<noteq> 0
      then (put_item a (it\<lparr>next_item := free w\<rparr>) w)\<lparr>free := Some a\<rparr>
      else (case event it of
              None \<Rightarrow> w
            | Some e \<Rightarrow>
                w\<lparr>event_mem := (event_mem w)[e := map_option (\<lambda>ev. ev\<lparr>signalled := True\<rparr>)
                                                    (get_event w e)]\<rparr>))"

definition item_ok :: "world \<Rightarrow> work_item \<Rightarrow> bool" where
  "item_ok w it \<longleftrightarrow>
     queue it = TheQueue \<and> (case event it of None \<Rightarrow> True | Some e \<Rightarrow> get_event w e \<noteq> None)"

text \<open>The item as \<open>process_item\<close> leaves it, before the notification.\<close>

definition finished :: "work_item \<Rightarrow> work_item" where
  "finished it = it\<lparr>result := callback it (param it), done_flag := True\<rparr>"

text \<open>
  An IO queue on one processor whose only item the worker has just taken from the list,
  while its owner waits for it on event 2.
\<close>

definition waited_item :: work_item where
  "waited_item =
     \<lparr>next_item = None, queue = TheQueue, callback = (\<lambda>x. x * x), param = 7, result = 0,
      event = Some 2, flags_item = 0, done_flag = False\<rparr>"

definition taken_item_world :: world where
  "taken_item_world =
     \<lparr>lock = \<lparr>slot = (replicate 16 False)[2 := True], nextindex = 2\<rparr>,
      list_head = None, tailptr = ListHead, free = None, items = 1, livethreads = 0,
      waiting = False, exiting = False, threads = 1, flags = WORK_QUEUE_FLAG_IO,
      thread = Some [\<lparr>queue_thread = TheQueue, handle = Some 0, wakeevent = Some 1,
                       active = False\<rparr>, zero_thread],
      doneevent = Some 0,
      item_mem = [Some waited_item],
      event_mem = [Some \<lparr>manualreset = True, signalled = True\<rparr>,
                   Some \<lparr>manualreset = False, signalled = True\<rparr>,
                   Some \<lparr>manualreset = True, signalled = False\<rparr>],
      os_threads = [True], queue_block = True, alloc_plan = [],
      osd_ticks_per_second = 1000\<rparr>"

subsection \<open>Well-formed queues\<close>

text \<open>
  The list starting at the pointer \<open>p\<close> in the item store \<open>m\<close> visits exactly the addresses
  \<open>xs\<close>, in this order, following the \<^verbatim>\<open>next\<close> fields, and ends in null.
\<close>

fun is_chain :: "work_item option list \<Rightarrow> nat option \<Rightarrow> nat list \<Rightarrow> bool" where
  "is_chain m p [] = (p = None)"
| "is_chain m p (a # as) =
     (p = Some a \<and> (case cell m a of None \<Rightarrow> False | Some it \<Rightarrow> is_chain m (next_item it) as))"

text \<open>The lock is free: the slot of the next ticket holds the baton.\<close>

definition lock_ready :: "scalable_lock \<Rightarrow> bool" where
  "lock_ready l \<longleftrightarrow> length (slot l) = 16 \<and> slot l ! unat (nextindex l AND 15)"

text \<open>The lock after one acquire and the release that follows it.\<close>

definition lock_cycle :: "scalable_lock \<Rightarrow> scalable_lock" where
  "lock_cycle l =
     \<lparr>slot = ((slot l)[unat (nextindex l AND 15) := False])[unat ((nextindex l + 1) AND 15) := True],
      nextindex = nextindex l + 1\<rparr>"

text \<open>An item that differs from another at most in its \<^verbatim>\<open>next\<close> field.\<close>

definition same_but_next :: "work_item \<Rightarrow> work_item \<Rightarrow> bool" where
  "same_but_next it' it \<longleftrightarrow> it' = it\<lparr>next_item := next_item it'\<rparr>"

text \<open>The done event of the queue is allocated.\<close>

definition done_event_ok :: "world \<Rightarrow> bool" where
  "done_event_ok w \<longleftrightarrow>
     (case doneevent w of None \<Rightarrow> False | Some e \<Rightarrow> get_event w e \<noteq> None)"


text \<open>The state after a worker has taken the head of the list, an item \<open>it\<close>.\<close>

definition popped :: "work_item \<Rightarrow> world \<Rightarrow> world" where
  "popped it w =
     w\<lparr>lock := lock_cycle (lock w), list_head := next_item it,
       tailptr := (if next_item it = None then ListHead else tailptr w)\<rparr>"

text \<open>The state after the worker has also completed that item, at address \<open>a\<close>.\<close>

definition after_item :: "nat \<Rightarrow> work_item \<Rightarrow> world \<Rightarrow> world" where
  "after_item a it w =
     notified a (finished it)
       (put_item a (finished it) ((popped it w)\<lparr>items := items (popped it w) - 1\<rparr>))"


text \<open>An item with the fields written that lines 475 to 480 write.\<close>

definition filled :: "(ptr \<Rightarrow> ptr) \<Rightarrow> ptr \<Rightarrow> 32 word \<Rightarrow> work_item \<Rightarrow> work_item" where
  "filled cb pb fl it =
     it\<lparr>next_item := None, callback := cb, param := pb, result := 0, flags_item := fl,
        done_flag := False\<rparr>"

text \<open>
  The state after the loop body has written the item at address \<open>a\<close> and stored its address
  through \<^verbatim>\<open>item_tailptr\<close> (lines 475 to 483).
\<close>

definition attached :: "nat \<Rightarrow> work_item \<Rightarrow> submit_locals \<Rightarrow> world \<Rightarrow> world" where
  "attached a it loc w =
     (case item_tailptr loc of
        NextOf b \<Rightarrow>
          (case get_item (put_item a it w) b of
             None \<Rightarrow> put_item a it w
           | Some itb \<Rightarrow> put_item b (itb\<lparr>next_item := Some a\<rparr>) (put_item a it w))
      | _ \<Rightarrow> put_item a it w)"

text \<open>The locals after one round of the loop that built the item at address \<open>a\<close>.\<close>

definition advanced :: "nat \<Rightarrow> 32 word \<Rightarrow> submit_locals \<Rightarrow> submit_locals" where
  "advanced a paramstep loc =
     loc\<lparr>itemlist := (if item_tailptr loc = LocalItemlist then Some a else itemlist loc),
         item_tailptr := NextOf a, parambase := parambase loc + scast paramstep\<rparr>"

text \<open>The state after \<^verbatim>\<open>malloc\<close> has given a new item and lines 470 and 471 have written it.\<close>

definition malloced :: "world \<Rightarrow> world" where
  "malloced w =
     (snd (take_alloc w))\<lparr>item_mem := item_mem w @
        [Some (indeterminate_item\<lparr>event := None, queue := TheQueue\<rparr>)]\<rparr>"

text \<open>
  The items at the addresses \<open>bs\<close> are as the submission builds them: the \<open>i\<close>-th has the
  callback, the parameter \<open>pbase + i * paramstep\<close>, a null result, \<^verbatim>\<open>done\<close> false and
  the flags.
\<close>

definition built_ok ::
  "(ptr \<Rightarrow> ptr) \<Rightarrow> ptr \<Rightarrow> 32 word \<Rightarrow> 32 word \<Rightarrow> world \<Rightarrow> nat list \<Rightarrow> bool" where
  "built_ok cb pbase paramstep fl w bs \<longleftrightarrow>
     (\<forall>i < length bs.
        case get_item w (bs ! i) of
          None \<Rightarrow> False
        | Some it \<Rightarrow>
            callback it = cb \<and> param it = pbase + of_nat i * scast paramstep \<and>
            result it = 0 \<and> \<not> done_flag it \<and> flags_item it = fl)"

text \<open>Every address of the list holds an item of the queue whose event, if any, is allocated.\<close>

definition items_ok :: "world \<Rightarrow> nat list \<Rightarrow> bool" where
  "items_ok w xs \<longleftrightarrow>
     (\<forall>a \<in> set xs. case get_item w a of None \<Rightarrow> False | Some it \<Rightarrow> item_ok w it)"

text \<open>
  The invariant of the loop of lines 453 to 486: the pending list \<open>ps\<close>, the chain \<open>bs\<close> built
  so far and the free list \<open>fs\<close> are disjoint lists, and \<^verbatim>\<open>item_tailptr\<close> is the address of
  the \<^verbatim>\<open>next\<close> field of the last item built, or of \<^verbatim>\<open>itemlist\<close> before the first.
\<close>

definition building :: "world \<Rightarrow> nat list \<Rightarrow> nat list \<Rightarrow> nat list \<Rightarrow> submit_locals \<Rightarrow> bool" where
  "building w ps bs fs loc \<longleftrightarrow>
     is_chain (item_mem w) (list_head w) ps \<and>
     is_chain (item_mem w) (free w) fs \<and>
     is_chain (item_mem w) (itemlist loc) bs \<and>
     distinct (ps @ bs @ fs) \<and>
     item_tailptr loc = (if bs = [] then LocalItemlist else NextOf (last bs)) \<and>
     items_ok w (ps @ bs @ fs)"

text \<open>
  Two states that differ at most in the free list, the item store and the allocations to
  come.
\<close>

definition untouched :: "world \<Rightarrow> world \<Rightarrow> bool" where
  "untouched w w' \<longleftrightarrow>
     w' = w\<lparr>free := free w', item_mem := item_mem w', alloc_plan := alloc_plan w'\<rparr>"

text \<open>The state that the critical section of the submission leaves.\<close>

definition spliced :: "submit_locals \<Rightarrow> world \<Rightarrow> world" where
  "spliced loc w =
     (case tailptr w of
        NextOf b \<Rightarrow>
          (case get_item w b of
             None \<Rightarrow> w
           | Some it \<Rightarrow> put_item b (it\<lparr>next_item := itemlist loc\<rparr>) w)
      | _ \<Rightarrow> w\<lparr>list_head := itemlist loc\<rparr>)
     \<lparr>tailptr := item_tailptr loc, lock := lock_cycle (lock w)\<rparr>"

text \<open>The thread records that the submission wakes exist and their wake events are allocated.\<close>

definition threads_ok :: "world \<Rightarrow> bool" where
  "threads_ok w \<longleftrightarrow>
     threads w = 0 \<or>
     (case thread w of
        None \<Rightarrow> False
      | Some ts \<Rightarrow>
          unat (threads w) \<le> length ts \<and>
          (\<forall>t \<in> set (take (unat (threads w)) ts).
             case wakeevent t of None \<Rightarrow> False | Some e \<Rightarrow> get_event w e \<noteq> None))"

text \<open>
  A well-formed queue with the pending list \<open>ps\<close> and the free list \<open>fs\<close>: the two lists are
  disjoint, \<open>tailptr\<close> is the address of the \<^verbatim>\<open>next\<close> field of the last pending item or of
  \<open>list_head\<close> when none is pending, \<open>items\<close> counts the pending items, and the lock is
  free.
\<close>

definition queue_ok :: "world \<Rightarrow> nat list \<Rightarrow> nat list \<Rightarrow> bool" where
  "queue_ok w ps fs \<longleftrightarrow>
     is_chain (item_mem w) (list_head w) ps \<and> is_chain (item_mem w) (free w) fs \<and>
     distinct (ps @ fs) \<and>
     tailptr w = (if ps = [] then ListHead else NextOf (last ps)) \<and>
     lock_ready (lock w) \<and> items_ok w (ps @ fs) \<and> items w = of_nat (length ps) \<and>
     done_event_ok w \<and> threads_ok w"

text \<open>
  Two states that differ at most in what building and enqueuing a chain writes: the lock
  has gone through one cycle.
\<close>

definition enqueued :: "world \<Rightarrow> world \<Rightarrow> bool" where
  "enqueued w w' \<longleftrightarrow>
     w' = w\<lparr>lock := lock_cycle (lock w), list_head := list_head w', tailptr := tailptr w',
            free := free w', items := items w', item_mem := item_mem w',
            alloc_plan := alloc_plan w'\<rparr>"

text \<open>Two states that differ at most in the event store, where no event was freed.\<close>

definition events_kept :: "world \<Rightarrow> world \<Rightarrow> bool" where
  "events_kept w w' \<longleftrightarrow>
     w' = w\<lparr>event_mem := event_mem w'\<rparr> \<and> (\<forall>e. get_event w e \<noteq> None \<longrightarrow> get_event w' e \<noteq> None)"

text \<open>What the call returns: the head of the chain it built, or null for auto-release.\<close>

definition submit_handle :: "32 word \<Rightarrow> nat list \<Rightarrow> nat option" where
  "submit_handle fl cs =
     (if fl AND WORK_ITEM_FLAG_AUTO_RELEASE \<noteq> 0 then None
      else (case cs of [] \<Rightarrow> None | c # _ \<Rightarrow> Some c))"


text \<open>An environment with three processors and no override.\<close>

definition three_cpus :: environment where
  "three_cpus = \<lparr>getenv_OSDPROCESSORS = None, sscanf_d = (\<lambda>s. None), osd_num_processors = 3\<rparr>"

text \<open>The environment of scenario S1: one processor and no override.\<close>

definition one_cpu :: environment where
  "one_cpu = \<lparr>getenv_OSDPROCESSORS = None, sscanf_d = (\<lambda>s. None), osd_num_processors = 1\<rparr>"

subsection \<open>Facts about the lock\<close>

lemma and15_take_bit: "(x::32 word) AND 15 = take_bit 4 x"
proof -
  have "(15::32 word) = mask 4" by (simp add: mask_eq_exp_minus_1)
  then show ?thesis by (simp add: take_bit_eq_mask)
qed

lemma unat_and15: "unat ((x::32 word) AND 15) = unat x mod 16"
  unfolding and15_take_bit by (simp add: take_bit_eq_mod unat_mod)

lemma unat_succ_and15: "unat (((m::32 word) + 1) AND 15) = (unat m + 1) mod 16"
proof -
  have "unat (m + 1) = (unat m + 1) mod 2 ^ 32"
    by (simp add: unat_word_ariths)
  moreover have "((unat m + 1) mod 2 ^ 32) mod 16 = (unat m + 1) mod 16"
    by (rule mod_mod_cancel) simp
  ultimately show ?thesis by (simp add: unat_and15)
qed

lemma succ_and15_rotate: "((x AND 15) + 1) AND 15 = (x + 1) AND (15::32 word)"
  unfolding word_unat_eq_iff unat_succ_and15
  by (simp add: unat_and15 mod_simps)

lemma succ_and15_neq: "unat (((m::32 word) + 1) AND 15) \<noteq> unat m"
  unfolding unat_succ_and15 by presburger


lemma slot_init: "slot scalable_lock_init = True # replicate 15 False"
proof -
  have "unat MAX_THREADS = Suc 15" by (simp add: MAX_THREADS_def)
  moreover have "replicate (Suc 15) False = False # replicate 15 False" by (rule replicate.simps)
  ultimately show ?thesis by (simp add: scalable_lock_init_def del: replicate_Suc)
qed

lemma lock_inv_init: "lock_inv (lock_system_init n)"
  by (simp add: lock_inv_def lock_system_init_def slot_init batons_def)

lemma no_batons: "batons l = 0 \<Longrightarrow> i < length (slot l) \<Longrightarrow> \<not> slot l ! i"
proof
  assume z: "batons l = 0" and i: "i < length (slot l)" and t: "slot l ! i"
  from z have "\<forall>x \<in> set (slot l). \<not> x"
    by (simp add: batons_def filter_empty_conv)
  with i t show False using nth_mem by blast
qed

lemma ticket_ok_nth: "lock_inv s \<Longrightarrow> t < length (lthreads s) \<Longrightarrow> ticket_ok (lthreads s ! t)"
  by (simp add: lock_inv_def)


lemma set_update_ok: "\<forall>x \<in> set xs. P x \<Longrightarrow> P v \<Longrightarrow> \<forall>x \<in> set (xs[i := v]). P x"
  using set_update_subset_insert [of xs i v] by auto

lemma lock_ticket_eq: "lock_ticket l = (nextindex l AND 15, l\<lparr>nextindex := nextindex l + 1\<rparr>)"
  by (simp add: lock_ticket_def osd_interlocked_increment_def osd_sync_add_def MAX_THREADS_def)

lemma lock_try_True:
  "slot l ! unat m \<Longrightarrow> lock_try l m = (True, l\<lparr>slot := (slot l)[unat m := False]\<rparr>)"
  by (simp add: lock_try_def osd_compare_exchange32_def)

lemma lock_try_False: "\<not> slot l ! unat m \<Longrightarrow> lock_try l m = (False, l)"
proof -
  assume f: "\<not> slot l ! unat m"
  have "(slot l)[unat m := slot l ! unat m] = slot l"
    by (rule list_update_id)
  with f have "(slot l)[unat m := False] = slot l"
    by simp
  with f show ?thesis
    by (simp add: lock_try_def osd_compare_exchange32_def)
qed

lemma scalable_lock_release_eq:
  "scalable_lock_release l m = l\<lparr>slot := (slot l)[unat ((m + 1) AND 15) := True]\<rparr>"
  by (simp add: scalable_lock_release_def osd_exchange32_def osd_compare_exchange32_def
      MAX_THREADS_def)

lemma lock_invI:
  "length (slot (the_lock s)) = 16 \<Longrightarrow>
   batons (the_lock s) + length (filter is_holding (lthreads s)) = 1 \<Longrightarrow>
   (\<forall>x \<in> set (lthreads s). ticket_ok x) \<Longrightarrow> lock_inv s"
  by (simp add: lock_inv_def)

lemma lock_step_inv: "lock_inv s \<Longrightarrow> lock_inv (lock_step s a)"
proof -
  assume inv: "lock_inv s"
  then have len: "length (slot (the_lock s)) = 16"
    and cnt: "batons (the_lock s) + length (filter is_holding (lthreads s)) = 1"
    and tok: "\<forall>x \<in> set (lthreads s). ticket_ok x"
    by (simp_all add: lock_inv_def)
  show ?thesis
  proof (cases a)
    case (Ticket t)
    show ?thesis
    proof (cases "t < length (lthreads s) \<and> lthreads s ! t = Outside")
      case False
      with inv Ticket show ?thesis by auto
    next
      case True
      let ?m = "nextindex (the_lock s) AND 15"
      let ?s = "s\<lparr>the_lock := (the_lock s)\<lparr>nextindex := nextindex (the_lock s) + 1\<rparr>,
                   lthreads := (lthreads s)[t := Spinning ?m]\<rparr>"
      from True Ticket have step: "lock_step s a = ?s"
        by (simp add: lock_ticket_eq)
      have h: "length (filter is_holding ((lthreads s)[t := Spinning ?m])) =
               length (filter is_holding (lthreads s))"
        using count_list_update [of t "lthreads s" is_holding "Spinning ?m"] True
        by simp
      have "ticket_ok (Spinning ?m)" by (simp add: unat_and15)
      with tok have "\<forall>x \<in> set ((lthreads s)[t := Spinning ?m]). ticket_ok x"
        by (rule set_update_ok)
      with len cnt h have "lock_inv ?s"
        by (simp add: lock_inv_def batons_def)
      with step show ?thesis by simp
    qed
  next
    case (Attempt t)
    show ?thesis
    proof (cases "t < length (lthreads s)")
      case False
      with inv Attempt show ?thesis by simp
    next
      case lt: True
      show ?thesis
      proof (cases "lthreads s ! t")
        case Outside
        with inv Attempt show ?thesis by simp
      next
        case (Holding m)
        with inv Attempt show ?thesis by simp
      next
        case (Spinning m)
        from ticket_ok_nth [OF inv lt] Spinning have m16: "unat m < 16" by simp
        with len have m: "unat m < length (slot (the_lock s))" by simp
        show ?thesis
        proof (cases "slot (the_lock s) ! unat m")
          case False
          with lt Spinning Attempt have "lock_step s a = s"
            by (simp add: lock_try_False)
          with inv show ?thesis by simp
        next
          case True
          let ?s = "s\<lparr>the_lock := (the_lock s)\<lparr>slot := (slot (the_lock s))[unat m := False]\<rparr>,
                       lthreads := (lthreads s)[t := Holding m]\<rparr>"
          from lt Spinning Attempt True have step: "lock_step s a = ?s"
            by (simp add: lock_try_True)
          have a: "length (filter (\<lambda>b. b) ((slot (the_lock s))[unat m := False])) + 1 =
                   length (filter (\<lambda>b. b) (slot (the_lock s)))"
            using count_list_update [OF m, of "\<lambda>b. b" False] True by simp
          have b: "length (filter is_holding ((lthreads s)[t := Holding m])) =
                   length (filter is_holding (lthreads s)) + 1"
            using count_list_update [OF lt, of is_holding "Holding m"] Spinning by simp
          from m16 have "ticket_ok (Holding m)" by simp
          with tok have "\<forall>x \<in> set ((lthreads s)[t := Holding m]). ticket_ok x"
            by (rule set_update_ok)
          moreover from a b cnt have
            "length (filter (\<lambda>b. b) ((slot (the_lock s))[unat m := False])) +
             length (filter is_holding ((lthreads s)[t := Holding m])) = 1"
            unfolding batons_def by arith
          ultimately have "lock_inv ?s"
            using len by (simp add: lock_inv_def batons_def)
          with step show ?thesis by simp
        qed
      qed
    qed
  next
    case (Release t)
    show ?thesis
    proof (cases "t < length (lthreads s)")
      case False
      with inv Release show ?thesis by simp
    next
      case lt: True
      show ?thesis
      proof (cases "lthreads s ! t")
        case Outside
        with inv Release show ?thesis by simp
      next
        case (Spinning m)
        with inv Release show ?thesis by simp
      next
        case (Holding m)
        let ?i = "unat ((m + 1) AND 15)"
        let ?s = "s\<lparr>the_lock := (the_lock s)\<lparr>slot := (slot (the_lock s))[?i := True]\<rparr>,
                     lthreads := (lthreads s)[t := Outside]\<rparr>"
        from lt Holding Release have step: "lock_step s a = ?s"
          by (simp add: scalable_lock_release_eq)
        have i: "?i < length (slot (the_lock s))"
          using len by (simp add: unat_and15)
        have b: "length (filter is_holding ((lthreads s)[t := Outside])) + 1 =
                   length (filter is_holding (lthreads s))"
          using count_list_update [OF lt, of is_holding Outside] Holding by simp
        with cnt have z: "batons (the_lock s) = 0"
          by simp
        then have "\<not> slot (the_lock s) ! ?i"
          using i by (rule no_batons)
        then have a: "length (filter (\<lambda>b. b) ((slot (the_lock s))[?i := True])) =
                   length (filter (\<lambda>b. b) (slot (the_lock s))) + 1"
          using count_list_update [OF i, of "\<lambda>b. b" True] by simp
        have "ticket_ok Outside" by simp
        with tok have "\<forall>x \<in> set ((lthreads s)[t := Outside]). ticket_ok x"
          by (rule set_update_ok)
        moreover from a b cnt have
          "length (filter (\<lambda>b. b) ((slot (the_lock s))[?i := True])) +
           length (filter is_holding ((lthreads s)[t := Outside])) = 1"
          unfolding batons_def by arith
        ultimately have "lock_inv ?s"
          using len by (simp add: lock_inv_def batons_def)
        with step show ?thesis by simp
      qed
    qed
  qed
qed

lemma lock_foldl_inv: "lock_inv s \<Longrightarrow> lock_inv (foldl lock_step s sched)"
  by (induction sched arbitrary: s) (simp_all add: lock_step_inv)

lemma lock_run_inv: "lock_inv (lock_run n sched)"
  by (simp add: lock_run_def lock_foldl_inv lock_inv_init)

lemma release_target_false:
  assumes "lock_inv s" and "release_target s t = Some i"
  shows "i < length (slot (the_lock s)) \<and> \<not> slot (the_lock s) ! i"
proof -
  from assms(2) obtain m where lt: "t < length (lthreads s)" and h: "lthreads s ! t = Holding m"
    and i: "i = unat ((m + 1) AND 15)"
    by (auto simp: release_target_def MAX_THREADS_def split: if_splits lock_thread.splits)
  from lt h have "is_holding (lthreads s ! t)" by simp
  with lt have "filter is_holding (lthreads s) \<noteq> []"
    by (auto simp: filter_empty_conv)
  then obtain x xs where "filter is_holding (lthreads s) = x # xs"
    by (cases "filter is_holding (lthreads s)") auto
  with assms(1) have "batons (the_lock s) = 0" by (simp add: lock_inv_def)
  moreover have "i < length (slot (the_lock s))"
    using assms(1) i by (simp add: lock_inv_def unat_and15)
  ultimately show ?thesis
    by (simp add: no_batons)
qed


text \<open>
  C2. Mutual exclusion of the scalable lock. From the initial state (slot 0 holds the
  baton, every other slot is false, \<open>nextindex = 0\<close>), after any schedule of ticket,
  compare-and-swap and release steps of any number of threads, at most one slot has
  \<open>haslock\<close> true, and the slot that a release is about to write holds false.
\<close>

theorem scalable_lock_mutual_exclusion:
  "batons (the_lock (lock_run n sched)) \<le> 1 \<and>
   (\<forall>t i. release_target (lock_run n sched) t = Some i \<longrightarrow>
          \<not> slot (the_lock (lock_run n sched)) ! i)"
proof -
  have "lock_inv (lock_run n sched)" by (rule lock_run_inv)
  then show ?thesis
    using release_target_false [of "lock_run n sched"]
    by (auto simp: lock_inv_def)
qed

theorem scalable_lock_mutual_exclusion_witness:
  "release_target (lock_run 2 [Ticket 0, Ticket 1, Attempt 1, Attempt 0]) 0 = Some 1 \<and>
   batons (the_lock (lock_run 2 [Ticket 0, Ticket 1, Attempt 1, Attempt 0])) \<le> 1 \<and>
   \<not> slot (the_lock (lock_run 2 [Ticket 0, Ticket 1, Attempt 1, Attempt 0])) ! 1"
proof -
  have "release_target (lock_run 2 [Ticket 0, Ticket 1, Attempt 1, Attempt 0]) 0 = Some 1"
    by (simp add: lock_run_def lock_system_init_def slot_init lock_ticket_eq lock_try_True
        lock_try_False release_target_def MAX_THREADS_def scalable_lock_init_def)
  then show ?thesis
    using scalable_lock_mutual_exclusion [of 2 "[Ticket 0, Ticket 1, Attempt 1, Attempt 0]"]
    by blast
qed

lemma scalable_lock_acquire_eq:
  "scalable_lock_acquire l =
     (if slot l ! (unat (nextindex l) mod 16)
      then Some (nextindex l AND 15,
                 l\<lparr>nextindex := nextindex l + 1,
                   slot := (slot l)[unat (nextindex l) mod 16 := False]\<rparr>)
      else None)"
proof (cases "slot l ! unat (nextindex l AND 15)")
  case True
  then have "lock_try (l\<lparr>nextindex := nextindex l + 1\<rparr>) (nextindex l AND 15) =
      (True, l\<lparr>nextindex := nextindex l + 1,
               slot := (slot l)[unat (nextindex l AND 15) := False]\<rparr>)"
    by (simp add: lock_try_True)
  with True show ?thesis
    by (simp add: scalable_lock_acquire_def lock_ticket_eq unat_and15)
next
  case False
  then have "lock_try (l\<lparr>nextindex := nextindex l + 1\<rparr>) (nextindex l AND 15) =
      (False, l\<lparr>nextindex := nextindex l + 1\<rparr>)"
    by (simp add: lock_try_False)
  with False show ?thesis
    by (simp add: scalable_lock_acquire_def lock_ticket_eq unat_and15)
qed

lemma two_tickets:
  assumes "t < length (lthreads sys)" "u < length (lthreads sys)" "t \<noteq> u"
    "lthreads sys ! t = Outside" "lthreads sys ! u = Outside"
  shows "lthreads (lock_step (lock_step sys (Ticket t)) (Ticket u)) ! t =
           Spinning (nextindex (the_lock sys) AND 15)"
    and "lthreads (lock_step (lock_step sys (Ticket t)) (Ticket u)) ! u =
           Spinning ((nextindex (the_lock sys) + 1) AND 15)"
    and "nextindex (the_lock (lock_step (lock_step sys (Ticket t)) (Ticket u))) =
           nextindex (the_lock sys) + 2"
proof -
  let ?s1 = "sys\<lparr>the_lock := (the_lock sys)\<lparr>nextindex := nextindex (the_lock sys) + 1\<rparr>,
                lthreads := (lthreads sys)[t := Spinning (nextindex (the_lock sys) AND 15)]\<rparr>"
  from assms have s1: "lock_step sys (Ticket t) = ?s1"
    by (simp add: lock_ticket_eq)
  from assms have u1: "u < length (lthreads ?s1)" "lthreads ?s1 ! u = Outside"
    by simp_all
  let ?s2 = "?s1\<lparr>the_lock := (the_lock ?s1)\<lparr>nextindex := nextindex (the_lock ?s1) + 1\<rparr>,
                lthreads := (lthreads ?s1)[u := Spinning (nextindex (the_lock ?s1) AND 15)]\<rparr>"
  from u1 have s2: "lock_step ?s1 (Ticket u) = ?s2"
    by (simp add: lock_ticket_eq)
  show "lthreads (lock_step (lock_step sys (Ticket t)) (Ticket u)) ! t =
           Spinning (nextindex (the_lock sys) AND 15)"
    unfolding s1 s2 using assms by simp
  show "lthreads (lock_step (lock_step sys (Ticket t)) (Ticket u)) ! u =
           Spinning ((nextindex (the_lock sys) + 1) AND 15)"
    unfolding s1 s2 using assms by simp
  show "nextindex (the_lock (lock_step (lock_step sys (Ticket t)) (Ticket u))) =
           nextindex (the_lock sys) + 2"
    unfolding s1 s2 by simp
qed

lemma acquire_after_release:
  assumes "scalable_lock_acquire l = Some (s, l1)"
    and "scalable_lock_acquire (scalable_lock_release l1 s) = Some (s2, l2)"
  shows "unat s2 = (unat s + 1) mod 16"
proof -
  from assms(1) have s: "s = nextindex l AND 15" and n: "nextindex l1 = nextindex l + 1"
    by (auto simp: scalable_lock_acquire_eq split: if_splits)
  have "nextindex (scalable_lock_release l1 s) = nextindex l1"
    by (simp add: scalable_lock_release_eq)
  with assms(2) n have "s2 = (nextindex l + 1) AND 15"
    by (auto simp: scalable_lock_acquire_eq split: if_splits)
  then have "unat s2 = (unat (nextindex l) + 1) mod 16"
    by (simp only: unat_succ_and15)
  with s show ?thesis by (simp add: unat_and15 mod_simps)
qed

lemma lock_system_init_two:
  "lock_system_init 2 = \<lparr>the_lock = scalable_lock_init, lthreads = [Outside, Outside]\<rparr>"
proof -
  have "replicate 2 Outside = [Outside, Outside]"
    by (simp add: numeral_2_eq_2)
  then show ?thesis by (simp add: lock_system_init_def)
qed

text \<open>
  C3. The protocol of the scalable lock. Every call of \<^verbatim>\<open>scalable_lock_acquire\<close>, on
  any lock, increments \<open>nextindex\<close> and takes the value it incremented modulo 16 as its
  slot; it returns that slot, with the slot's \<open>haslock\<close> cleared, when the slot holds the
  baton, and spins otherwise. Two threads that take their tickets one after the other get
  consecutive slots of the ring, and so does an acquire that follows the release of the
  one before; on a fresh lock the first acquirer gets slot 0 at its first attempt.
  \<^verbatim>\<open>scalable_lock_release\<close> stores true into slot \<open>(myslot + 1) mod 16\<close>, which is never
  slot \<open>myslot\<close>, and changes nothing else.
\<close>

theorem scalable_lock_protocol:
  "scalable_lock_acquire l =
     (if slot l ! (unat (nextindex l) mod 16)
      then Some (nextindex l AND 15,
                 l\<lparr>nextindex := nextindex l + 1,
                   slot := (slot l)[unat (nextindex l) mod 16 := False]\<rparr>)
      else None) \<and>
   unat (nextindex l AND 15) = unat (nextindex l) mod 16 \<and>
   unat (fst (lock_ticket l)) = unat (nextindex l) mod 16 \<and>
   nextindex (snd (lock_ticket l)) = nextindex l + 1 \<and>
   unat (fst (lock_ticket (snd (lock_ticket l)))) = (unat (fst (lock_ticket l)) + 1) mod 16 \<and>
   (t < length (lthreads sys) \<and> u < length (lthreads sys) \<and> t \<noteq> u \<and>
    lthreads sys ! t = Outside \<and> lthreads sys ! u = Outside \<longrightarrow>
      lthreads (lock_step (lock_step sys (Ticket t)) (Ticket u)) ! t =
        Spinning (nextindex (the_lock sys) AND 15) \<and>
      lthreads (lock_step (lock_step sys (Ticket t)) (Ticket u)) ! u =
        Spinning ((nextindex (the_lock sys) + 1) AND 15) \<and>
      nextindex (the_lock (lock_step (lock_step sys (Ticket t)) (Ticket u))) =
        nextindex (the_lock sys) + 2) \<and>
   (scalable_lock_acquire l = Some (s, l1) \<and>
    scalable_lock_acquire (scalable_lock_release l1 s) = Some (s2, l2) \<longrightarrow>
      unat s2 = (unat s + 1) mod 16) \<and>
   scalable_lock_acquire scalable_lock_init =
     Some (0, \<lparr>slot = replicate 16 False, nextindex = 1\<rparr>) \<and>
   scalable_lock_release l m = l\<lparr>slot := (slot l)[(unat m + 1) mod 16 := True]\<rparr> \<and>
   (unat m + 1) mod 16 \<noteq> unat m"
proof -
  have a: "unat (fst (lock_ticket l)) = unat (nextindex l) mod 16"
    by (simp add: lock_ticket_eq unat_and15)
  have b: "nextindex (snd (lock_ticket l)) = nextindex l + 1"
    by (simp add: lock_ticket_eq)
  have "fst (lock_ticket (snd (lock_ticket l))) = (nextindex l + 1) AND 15"
    by (simp add: lock_ticket_eq)
  then have "unat (fst (lock_ticket (snd (lock_ticket l)))) = (unat (nextindex l) + 1) mod 16"
    by (simp only: unat_succ_and15)
  with a have c:
    "unat (fst (lock_ticket (snd (lock_ticket l)))) = (unat (fst (lock_ticket l)) + 1) mod 16"
    by (simp add: mod_simps)
  have r: "replicate 16 False = False # replicate 15 False"
    by (simp add: numeral_eq_Suc)
  have i: "scalable_lock_init = \<lparr>slot = True # replicate 15 False, nextindex = 0\<rparr>"
    using slot_init by (simp add: scalable_lock_init_def)
  have d: "scalable_lock_acquire scalable_lock_init =
      Some (0, \<lparr>slot = replicate 16 False, nextindex = 1\<rparr>)"
    unfolding i r by (simp add: scalable_lock_acquire_def lock_ticket_eq lock_try_True)
  have e: "scalable_lock_release l m = l\<lparr>slot := (slot l)[(unat m + 1) mod 16 := True]\<rparr>"
    by (simp add: scalable_lock_release_eq unat_succ_and15)
  have f: "(unat m + 1) mod 16 \<noteq> unat m"
    by presburger
  have g: "t < length (lthreads sys) \<and> u < length (lthreads sys) \<and> t \<noteq> u \<and>
    lthreads sys ! t = Outside \<and> lthreads sys ! u = Outside \<longrightarrow>
      lthreads (lock_step (lock_step sys (Ticket t)) (Ticket u)) ! t =
        Spinning (nextindex (the_lock sys) AND 15) \<and>
      lthreads (lock_step (lock_step sys (Ticket t)) (Ticket u)) ! u =
        Spinning ((nextindex (the_lock sys) + 1) AND 15) \<and>
      nextindex (the_lock (lock_step (lock_step sys (Ticket t)) (Ticket u))) =
        nextindex (the_lock sys) + 2"
    using two_tickets [of t sys u] by blast
  have h: "scalable_lock_acquire l = Some (s, l1) \<and>
    scalable_lock_acquire (scalable_lock_release l1 s) = Some (s2, l2) \<longrightarrow>
      unat s2 = (unat s + 1) mod 16"
    using acquire_after_release [of l s l1 s2 l2] by blast
  from scalable_lock_acquire_eq [of l] unat_and15 [of "nextindex l"] a b c d e f g h
  show ?thesis by blast
qed

theorem scalable_lock_protocol_witness:
  "scalable_lock_acquire scalable_lock_init =
     Some (0, \<lparr>slot = replicate 16 False, nextindex = 1\<rparr>) \<and>
   scalable_lock_acquire
     (scalable_lock_release \<lparr>slot = replicate 16 False, nextindex = 1\<rparr> 0) =
     Some (1, \<lparr>slot = replicate 16 False, nextindex = 2\<rparr>) \<and>
   unat (1::32 word) = (unat (0::32 word) + 1) mod 16 \<and>
   (0::nat) < length (lthreads (lock_system_init 2)) \<and>
   (1::nat) < length (lthreads (lock_system_init 2)) \<and> (0::nat) \<noteq> 1 \<and>
   lthreads (lock_system_init 2) ! 0 = Outside \<and> lthreads (lock_system_init 2) ! 1 = Outside \<and>
   lthreads (lock_step (lock_step (lock_system_init 2) (Ticket 0)) (Ticket 1)) ! 0 =
     Spinning 0 \<and>
   lthreads (lock_step (lock_step (lock_system_init 2) (Ticket 0)) (Ticket 1)) ! 1 =
     Spinning 1 \<and>
   nextindex (the_lock (lock_step (lock_step (lock_system_init 2) (Ticket 0)) (Ticket 1))) = 2"
proof -
  let ?l1 = "\<lparr>slot = replicate 16 False, nextindex = 1::32 word\<rparr>"
  let ?l2 = "\<lparr>slot = replicate 16 False, nextindex = 2::32 word\<rparr>"
  let ?sys = "lock_system_init 2"
  let ?s2 = "lock_step (lock_step ?sys (Ticket 0)) (Ticket 1)"
  note t = scalable_lock_protocol [of scalable_lock_init 0 ?sys 1 0 ?l1 1 ?l2 0]
  from t have a1: "scalable_lock_acquire scalable_lock_init = Some (0, ?l1)" by blast
  have r: "replicate 16 False = False # False # replicate 14 False"
    by (simp add: numeral_eq_Suc)
  have a2: "scalable_lock_acquire (scalable_lock_release ?l1 0) = Some (1, ?l2)"
    unfolding r by (simp add: scalable_lock_acquire_eq scalable_lock_release_eq)
  have hy: "(0::nat) < length (lthreads ?sys) \<and> (1::nat) < length (lthreads ?sys) \<and>
      (0::nat) \<noteq> 1 \<and> lthreads ?sys ! 0 = Outside \<and> lthreads ?sys ! 1 = Outside"
    by (simp add: lock_system_init_two)
  have n0: "nextindex (the_lock ?sys) = 0"
    by (simp add: lock_system_init_def scalable_lock_init_def)
  from t hy have sp: "lthreads ?s2 ! 0 = Spinning (nextindex (the_lock ?sys) AND 15)"
    "lthreads ?s2 ! 1 = Spinning ((nextindex (the_lock ?sys) + 1) AND 15)"
    "nextindex (the_lock ?s2) = nextindex (the_lock ?sys) + 2"
    by blast+
  from sp have sp': "lthreads ?s2 ! 0 = Spinning 0" "lthreads ?s2 ! 1 = Spinning 1"
    "nextindex (the_lock ?s2) = 2"
    unfolding n0 by simp_all
  from t a1 a2 have u: "unat (1::32 word) = (unat (0::32 word) + 1) mod 16" by blast
  from a1 a2 u hy sp' show ?thesis by blast
qed

subsection \<open>Facts about allocating the queue\<close>

lemma take_alloc_threads: "take_alloc w = (ok, w1) \<Longrightarrow> threads w1 = threads w"
  by (auto simp: take_alloc_def split: list.splits)

lemma osd_event_alloc_threads: "osd_event_alloc m i w = (e, w1) \<Longrightarrow> threads w1 = threads w"
  by (auto simp: osd_event_alloc_def split: prod.splits if_splits dest: take_alloc_threads)

lemma osd_thread_create_threads: "osd_thread_create w = (h, w1) \<Longrightarrow> threads w1 = threads w"
  by (auto simp: osd_thread_create_def split: prod.splits if_splits dest: take_alloc_threads)

lemma start_threads_threads:
  "start_threads is w = Inr (ok, w1) \<Longrightarrow> threads w1 = threads w"
proof (induction "is" arbitrary: w)
  case Nil
  then show ?case by simp
next
  case (Cons i rest)
  from Cons.prems obtain t where t: "thread_at w i = Inr t"
    by (auto simp: bindf_Inr_iff)
  obtain e wa where e: "osd_event_alloc False False w = (e, wa)" by (cases "osd_event_alloc False False w")
  let ?t1 = "t\<lparr>queue_thread := TheQueue, wakeevent := e\<rparr>"
  obtain h wb where h: "osd_thread_create (set_thread i ?t1 wa) = (h, wb)"
    by (cases "osd_thread_create (set_thread i ?t1 wa)")
  from e have ta: "threads wa = threads w" by (rule osd_event_alloc_threads)
  from h have tb: "threads wb = threads wa"
    by (simp add: osd_thread_create_threads [OF h] set_thread_def)
  show ?case
  proof (cases "e = None")
    case True
    with Cons.prems t e ta show ?thesis by (auto simp: set_thread_def)
  next
    case False
    note ne = this
    show ?thesis
    proof (cases "h = None")
      case True
      with Cons.prems t e h ne ta tb show ?thesis by (auto simp: set_thread_def)
    next
      case False
      with Cons.prems t e h ne have "start_threads rest (set_thread i (?t1\<lparr>handle := h\<rparr>) wb) = Inr (ok, w1)"
        by auto
      from Cons.IH [OF this] ta tb show ?thesis by (simp add: set_thread_def)
    qed
  qed
qed

lemma alloc_error_NullQueue: "alloc_error q w = Inr (h, w1) \<Longrightarrow> h = NullQueue"
  by (auto simp: alloc_error_def bindf_Inr_iff)

lemma queue_alloc_threads:
  assumes "osd_work_queue_alloc env fl w = Inr (TheQueue, w')"
  shows "threads w' = choose_threads (effective_num_processors env) fl"
proof -
  obtain ok w1 where a1: "take_alloc w = (ok, w1)" by (cases "take_alloc w")
  let ?w2 = "(zero_queue w1)\<lparr>tailptr := ListHead, flags := fl\<rparr>"
  obtain e w3 where a2: "osd_event_alloc True True ?w2 = (e, w3)"
    by (cases "osd_event_alloc True True ?w2")
  let ?w5 = "w3\<lparr>doneevent := e, lock := scalable_lock_init,
                threads := choose_threads (effective_num_processors env) fl\<rparr>"
  obtain ok2 w6 where a3: "take_alloc ?w5 = (ok2, w6)" by (cases "take_alloc ?w5")
  from a3 have t6: "threads w6 = choose_threads (effective_num_processors env) fl"
    by (simp add: take_alloc_threads [OF a3])
  from assms a1 a2 a3 have ok: "ok" "e \<noteq> None" "ok2"
    by (auto simp: osd_work_queue_alloc_def Let_def dest: alloc_error_NullQueue split: if_splits)
  with assms a1 a2 a3 obtain ok3 where
    "start_threads [0..<unat (threads w6)]
       (w6\<lparr>thread := Some (replicate (unat (threads w6) + 1) zero_thread)\<rparr>) = Inr (ok3, w')"
    by (auto simp: osd_work_queue_alloc_def Let_def bindf_Inr_iff dest: alloc_error_NullQueue split: if_splits)
  from start_threads_threads [OF this] t6 show ?thesis by simp
qed

lemma choose_threads_one:
  "choose_threads 1 fl = (if fl AND WORK_QUEUE_FLAG_IO \<noteq> 0 then 1 else 0)"
  by (simp add: choose_threads_def MIN_u32_def MAX_THREADS_def)

lemma uint_eq_sint:
  assumes "0 \<le> sint (x::32 word)"
  shows "uint x = sint x"
proof -
  have "uint (word_of_int k :: 32 word) = take_bit 32 k" for k
    by (simp add: uint_word_of_int_eq)
  from this [of "sint x"] have "uint x = take_bit 32 (sint x)" by simp
  also have "\<dots> = sint x"
    using sint_lt [of x] assms by (simp add: take_bit_int_eq_self)
  finally show ?thesis .
qed

lemma choose_threads_many:
  assumes "1 <s N"
  shows "uint (choose_threads N fl) =
         (if fl AND WORK_QUEUE_FLAG_MULTI \<noteq> 0 then min (sint N - 1) 16 else 1)"
proof -
  from assms have s: "1 < sint N" by (simp add: word_sless_alt)
  then have n1: "N \<noteq> 1" by auto
  from s have u: "uint N = sint N" by (simp add: uint_eq_sint)
  with s have "uint 1 \<le> uint N" by simp
  then have m: "uint (N - 1) = uint N - 1"
    using uint_sub_lem [of 1 N] by simp
  have lt: "N - 1 < 16 \<longleftrightarrow> uint N - 1 < 16"
    using m by (simp add: word_less_alt)
  show ?thesis
    using n1 m lt u by (simp add: choose_threads_def MIN_u32_def MAX_THREADS_def word_less_alt)
qed

text \<open>
  C7. A queue that \<^verbatim>\<open>osd_work_queue_alloc\<close> returns has the thread count that
  \<open>choose_threads\<close> computes from the effective processor count: one processor gives 1
  thread to an IO queue and 0 otherwise; \<open>N > 1\<close> processors give \<open>N - 1\<close> threads to a
  MULTI queue and 1 otherwise, at most 16. The effective processor count is the number
  read from \<^verbatim>\<open>OSDPROCESSORS\<close> when the variable is set and \<^verbatim>\<open>sscanf\<close> converts a
  positive number from it, and the count probed by the platform otherwise.
\<close>

theorem queue_alloc_worker_count:
  "(osd_work_queue_alloc env fl w = Inr (TheQueue, w') \<longrightarrow>
      threads w' = choose_threads (effective_num_processors env) fl) \<and>
   choose_threads 1 fl = (if fl AND WORK_QUEUE_FLAG_IO \<noteq> 0 then 1 else 0) \<and>
   (1 <s N \<longrightarrow>
      uint (choose_threads N fl) =
        (if fl AND WORK_QUEUE_FLAG_MULTI \<noteq> 0 then min (sint N - 1) 16 else 1)) \<and>
   (getenv_OSDPROCESSORS env = Some s \<and> sscanf_d env s = Some n \<and> 0 <s n \<longrightarrow>
      effective_num_processors env = n) \<and>
   (\<not> (\<exists>s n. getenv_OSDPROCESSORS env2 = Some s \<and> sscanf_d env2 s = Some n \<and> 0 <s n) \<longrightarrow>
      effective_num_processors env2 = osd_num_processors env2)"
proof -
  have a: "osd_work_queue_alloc env fl w = Inr (TheQueue, w') \<longrightarrow>
      threads w' = choose_threads (effective_num_processors env) fl"
    by (simp add: queue_alloc_threads)
  have b: "1 <s N \<longrightarrow>
      uint (choose_threads N fl) =
        (if fl AND WORK_QUEUE_FLAG_MULTI \<noteq> 0 then min (sint N - 1) 16 else 1)"
    using choose_threads_many [of N fl] by blast
  have c: "getenv_OSDPROCESSORS env = Some s \<and> sscanf_d env s = Some n \<and> 0 <s n \<longrightarrow>
      effective_num_processors env = n"
    by (simp add: effective_num_processors_def)
  have d: "\<not> (\<exists>s n. getenv_OSDPROCESSORS env2 = Some s \<and> sscanf_d env2 s = Some n \<and> 0 <s n) \<longrightarrow>
      effective_num_processors env2 = osd_num_processors env2"
    by (auto simp: effective_num_processors_def split: option.splits)
  from a b c d choose_threads_one [of fl] show ?thesis by blast
qed

theorem queue_alloc_worker_count_witness:
  "(\<exists>w'. osd_work_queue_alloc
           \<lparr>getenv_OSDPROCESSORS = Some ''3'',
              sscanf_d = (\<lambda>s. if s = ''3'' then Some 3 else None),
              osd_num_processors = 8\<rparr> WORK_QUEUE_FLAG_MULTI (boot [] 1000) = Inr (TheQueue, w') \<and>
         threads w' = 2) \<and>
   1 <s (3::32 word) \<and>
   uint (choose_threads 3 WORK_QUEUE_FLAG_MULTI) = 2 \<and>
   effective_num_processors
     \<lparr>getenv_OSDPROCESSORS = Some ''3'',
        sscanf_d = (\<lambda>s. if s = ''3'' then Some 3 else None),
        osd_num_processors = 8\<rparr> = 3 \<and>
   effective_num_processors
     \<lparr>getenv_OSDPROCESSORS = None, sscanf_d = (\<lambda>s. None), osd_num_processors = 8\<rparr> = 8"
proof -
  let ?env = "\<lparr>getenv_OSDPROCESSORS = Some ''3'',
                sscanf_d = (\<lambda>s. if s = ''3'' then Some (3::32 word) else None),
                osd_num_processors = 8\<rparr>"
  let ?env2 = "\<lparr>getenv_OSDPROCESSORS = None, sscanf_d = (\<lambda>s. None::32 word option),
                 osd_num_processors = 8\<rparr>"
  have "case osd_work_queue_alloc ?env WORK_QUEUE_FLAG_MULTI (boot [] 1000) of
          Inl f \<Rightarrow> False | Inr (h, w') \<Rightarrow> h = TheQueue"
    by code_simp
  then obtain w' where al:
    "osd_work_queue_alloc ?env WORK_QUEUE_FLAG_MULTI (boot [] 1000) = Inr (TheQueue, w')"
    by (auto split: sum.splits prod.splits)
  have h1: "1 <s (3::32 word)" by (simp add: word_sless_alt)
  have h2: "getenv_OSDPROCESSORS ?env = Some ''3'' \<and> sscanf_d ?env ''3'' = Some 3 \<and> 0 <s (3::32 word)"
    by (simp add: word_sless_alt)
  have h3: "\<not> (\<exists>s n. getenv_OSDPROCESSORS ?env2 = Some s \<and> sscanf_d ?env2 s = Some n \<and> 0 <s n)"
    by simp
  have m: "WORK_QUEUE_FLAG_MULTI AND WORK_QUEUE_FLAG_MULTI \<noteq> 0"
    by (simp add: WORK_QUEUE_FLAG_MULTI_def)
  note t = queue_alloc_worker_count
    [of ?env WORK_QUEUE_FLAG_MULTI "boot [] 1000" w' 3 "''3''" 3 ?env2]
  from t h2 have e: "effective_num_processors ?env = 3" by blast
  from t h3 have e2: "effective_num_processors ?env2 = 8" by simp
  from t h1 m have u: "uint (choose_threads 3 WORK_QUEUE_FLAG_MULTI) = 2" by simp
  then have "choose_threads 3 WORK_QUEUE_FLAG_MULTI = 2"
    by (simp add: word_uint_eq_iff)
  with t al e have "threads w' = 2" by simp
  with al h1 u e e2 show ?thesis by blast
qed

subsection \<open>Runs that end in a fault or a leak\<close>

lemma returnsE:
  "(case r of Inl f \<Rightarrow> False | Inr (x, y) \<Rightarrow> P x y) \<Longrightarrow> \<exists>x y. r = Inr (x, y) \<and> P x y"
  by (cases r) auto

lemma faultsE:
  "(case r of Inl f \<Rightarrow> f = X | Inr (x, y) \<Rightarrow> False) \<Longrightarrow> r = Inl X"
  by (cases r) auto

lemma submit_nothing_eval:
  "case osd_work_queue_alloc one_cpu 0 (boot [] 1000) of
     Inl f \<Rightarrow> False
   | Inr (h, q) \<Rightarrow> h = TheQueue \<and> list_head q = None \<and> tailptr q = ListHead \<and>
       (case osd_work_item_queue_multiple (\<lambda>w. w) q (\<lambda>x. x * x) 0 1 1 0 of
          Inl f \<Rightarrow> False
        | Inr (r, w) \<Rightarrow> r = None \<and> list_head w = None \<and> tailptr w = LocalItemlist \<and>
            (case osd_work_item_queue_multiple (\<lambda>w. w) w (\<lambda>x. x * x) 1 1 1 0 of
               Inl f \<Rightarrow> f = DanglingPointer
             | Inr (r, w) \<Rightarrow> False))"
  by code_simp

text \<open>
  C9. The tail pointer after a submission of no items. On the fresh queue of scenario
  S1 the pending list is empty and \<open>tailptr\<close> is the address of \<open>list_head\<close>. After
  submitting zero items the list is still empty, but \<open>tailptr\<close> is the address of the
  local variable \<^verbatim>\<open>itemlist\<close> of the call that has returned; the next submission stores
  through it.
\<close>

theorem submit_nothing_breaks_tailptr:
  "\<exists>q w. osd_work_queue_alloc one_cpu 0 (boot [] 1000) = Inr (TheQueue, q) \<and>
     list_head q = None \<and> tailptr q = ListHead \<and>
     osd_work_item_queue_multiple (\<lambda>w. w) q (\<lambda>x. x * x) 0 1 1 0 = Inr (None, w) \<and>
     list_head w = None \<and> tailptr w = LocalItemlist \<and>
     osd_work_item_queue_multiple (\<lambda>w. w) w (\<lambda>x. x * x) 1 1 1 0 = Inl DanglingPointer"
proof -
  from submit_nothing_eval [THEN returnsE] obtain h q
    where a: "osd_work_queue_alloc one_cpu 0 (boot [] 1000) = Inr (h, q)"
      and q: "h = TheQueue" "list_head q = None" "tailptr q = ListHead"
      and b: "case osd_work_item_queue_multiple (\<lambda>w. w) q (\<lambda>x. x * x) 0 1 1 0 of
          Inl f \<Rightarrow> False
        | Inr (r, w) \<Rightarrow> r = None \<and> list_head w = None \<and> tailptr w = LocalItemlist \<and>
            (case osd_work_item_queue_multiple (\<lambda>w. w) w (\<lambda>x. x * x) 1 1 1 0 of
               Inl f \<Rightarrow> f = DanglingPointer
             | Inr (r, w) \<Rightarrow> False)"
    by blast
  from b [THEN returnsE] obtain r w
    where c: "osd_work_item_queue_multiple (\<lambda>w. w) q (\<lambda>x. x * x) 0 1 1 0 = Inr (r, w)"
      and w: "r = None" "list_head w = None" "tailptr w = LocalItemlist"
      and d: "case osd_work_item_queue_multiple (\<lambda>w. w) w (\<lambda>x. x * x) 1 1 1 0 of
               Inl f \<Rightarrow> f = DanglingPointer
             | Inr (r, w) \<Rightarrow> False"
    by blast
  from d have "osd_work_item_queue_multiple (\<lambda>w. w) w (\<lambda>x. x * x) 1 1 1 0 = Inl DanglingPointer"
    by (rule faultsE)
  with a q c w show ?thesis by blast
qed

lemma failed_allocation_eval:
  "(case osd_work_queue_alloc one_cpu 0 (boot [False] 1000) of
      Inl f \<Rightarrow> f = NullDeref | Inr (h, q) \<Rightarrow> False) \<and>
   (case osd_work_queue_alloc one_cpu 0 (boot [True, True, True, True, False] 1000) of
     Inl f \<Rightarrow> False
   | Inr (h, q) \<Rightarrow> h = TheQueue \<and> free q = None \<and> item_mem q = [] \<and>
       (case osd_work_item_queue_multiple (\<lambda>w. w) q (\<lambda>x. x * x) 2 1 1 0 of
          Inl f \<Rightarrow> False
        | Inr (r, w) \<Rightarrow> r = None \<and> list_head w = None \<and> free w = None \<and>
            get_item w 0 \<noteq> None))"
  by code_simp

text \<open>
  C8. Two allocation failures. When \<^verbatim>\<open>malloc\<close> fails for the queue itself,
  \<^verbatim>\<open>osd_work_queue_alloc\<close> jumps to its error label and \<^verbatim>\<open>osd_work_queue_free\<close>
  dereferences the null queue. When \<^verbatim>\<open>malloc\<close> fails for the second of two items
  submitted to a fresh queue, the call returns null and the first item, at address 0, is
  allocated but on neither the pending list nor the free list.
\<close>

theorem allocation_failure_faults_and_leaks:
  "osd_work_queue_alloc one_cpu 0 (boot [False] 1000) = Inl NullDeref \<and>
   (\<exists>q w. osd_work_queue_alloc one_cpu 0 (boot [True, True, True, True, False] 1000) =
             Inr (TheQueue, q) \<and>
           free q = None \<and> item_mem q = [] \<and>
           osd_work_item_queue_multiple (\<lambda>w. w) q (\<lambda>x. x * x) 2 1 1 0 = Inr (None, w) \<and>
           list_head w = None \<and> free w = None \<and> get_item w 0 \<noteq> None)"
proof -
  from failed_allocation_eval
  have a: "osd_work_queue_alloc one_cpu 0 (boot [False] 1000) = Inl NullDeref"
    by (blast intro: faultsE)
  from failed_allocation_eval
  have "case osd_work_queue_alloc one_cpu 0 (boot [True, True, True, True, False] 1000) of
     Inl f \<Rightarrow> False
   | Inr (h, q) \<Rightarrow> h = TheQueue \<and> free q = None \<and> item_mem q = [] \<and>
       (case osd_work_item_queue_multiple (\<lambda>w. w) q (\<lambda>x. x * x) 2 1 1 0 of
          Inl f \<Rightarrow> False
        | Inr (r, w) \<Rightarrow> r = None \<and> list_head w = None \<and> free w = None \<and>
            get_item w 0 \<noteq> None)"
    by blast
  from this [THEN returnsE] obtain h q
    where b: "osd_work_queue_alloc one_cpu 0 (boot [True, True, True, True, False] 1000) =
        Inr (h, q)"
      and q: "h = TheQueue" "free q = None" "item_mem q = []"
      and c: "case osd_work_item_queue_multiple (\<lambda>w. w) q (\<lambda>x. x * x) 2 1 1 0 of
          Inl f \<Rightarrow> False
        | Inr (r, w) \<Rightarrow> r = None \<and> list_head w = None \<and> free w = None \<and>
            get_item w 0 \<noteq> None"
    by blast
  from c [THEN returnsE] obtain r w
    where d: "osd_work_item_queue_multiple (\<lambda>w. w) q (\<lambda>x. x * x) 2 1 1 0 = Inr (r, w)"
      and w: "r = None" "list_head w = None" "free w = None" "get_item w 0 \<noteq> None"
    by blast
  from a b q d w show ?thesis by blast
qed

subsection \<open>Facts about completing an item\<close>

lemma cell_update: "cell (m[a := v]) x = (if x = a \<and> a < length m then v else cell m x)"
  by (simp add: cell_def)

lemma cell_append: "cell (m @ [v]) x = (if x = length m then v else cell m x)"
  by (auto simp: cell_def nth_append)

lemma cell_Some_less: "cell m a = Some v \<Longrightarrow> a < length m"
  by (simp add: cell_def split: if_splits)

lemma get_item_put_item:
  "get_item (put_item a it w) x = (if x = a \<and> a < length (item_mem w) then Some it else get_item w x)"
  by (simp add: get_item_def put_item_def cell_update)

lemma get_item_less: "get_item w a = Some it \<Longrightarrow> a < length (item_mem w)"
  by (simp add: get_item_def cell_Some_less)

lemma get_event_put_item [simp]: "get_event (put_item a it w) e = get_event w e"
  by (simp add: get_event_def put_item_def)

lemma store_result_eq:
  "get_item w a = Some it \<Longrightarrow>
   store_result a w = Inr (put_item a (it\<lparr>result := callback it (param it)\<rparr>) w)"
  by (simp add: store_result_def read_item_def)

lemma set_done_eq:
  "get_item w a = Some it \<Longrightarrow> set_done a w = Inr (put_item a (it\<lparr>done_flag := True\<rparr>) w)"
  by (simp add: set_done_def read_item_def)

lemma decrement_items_eq: "decrement_items w = w\<lparr>items := items w - 1\<rparr>"
  by (simp add: decrement_items_def osd_interlocked_decrement_def osd_sync_add_def)

lemma get_item_decrement [simp]: "get_item (decrement_items w) a = get_item w a"
  by (simp add: decrement_items_eq get_item_def)

lemma get_event_decrement [simp]: "get_event (decrement_items w) e = get_event w e"
  by (simp add: decrement_items_eq get_event_def)

lemma release_done_eq:
  "get_item w a = Some it \<Longrightarrow> done_flag it \<Longrightarrow> queue it = TheQueue \<Longrightarrow>
   osd_work_item_release others a w =
     Inr ((put_item a (it\<lparr>next_item := free w\<rparr>) w)\<lparr>free := Some a\<rparr>)"
  by (simp add: osd_work_item_release_def item_wait_done read_item_def)

lemma event_set_eq:
  "get_event w e = Some ev \<Longrightarrow>
   osd_event_set (Some e) w =
     Inr (w\<lparr>event_mem := (event_mem w)[e := Some (ev\<lparr>signalled := True\<rparr>)]\<rparr>)"
  by (simp add: osd_event_set_def write_event_def)

lemma notify_done_eq:
  assumes "get_item w a = Some it" "done_flag it" "item_ok w it"
  shows "notify_done others a w = Inr (notified a it w)"
proof (cases "flags_item it AND WORK_ITEM_FLAG_AUTO_RELEASE \<noteq> 0")
  case True
  with assms show ?thesis
    by (simp add: notify_done_def read_item_def release_done_eq notified_def item_ok_def)
next
  case False
  show ?thesis
  proof (cases "event it")
    case None
    with False assms show ?thesis by (simp add: notify_done_def read_item_def notified_def)
  next
    case (Some e)
    with assms obtain ev where "get_event w e = Some ev" by (auto simp: item_ok_def)
    with Some False assms show ?thesis
      by (simp add: notify_done_def read_item_def notified_def event_set_eq)
  qed
qed


lemma get_event_update:
  "get_event (w\<lparr>event_mem := (event_mem w)[e := v]\<rparr>) x =
     (if x = e \<and> e < length (event_mem w) then v else get_event w x)"
  by (simp add: get_event_def cell_update)

lemma get_event_less: "get_event w e = Some ev \<Longrightarrow> e < length (event_mem w)"
  by (simp add: get_event_def cell_Some_less)

lemma view_put:
  assumes "get_item w a = Some it0" and "event it = event it0"
  shows "completion_view (put_item a it w) a =
         (Some (result it), items w, Some (done_flag it), item_event_signalled w a)"
proof -
  from assms(1) have "a < length (item_mem w)" by (rule get_item_less)
  then have "get_item (put_item a it w) a = Some it" by (simp add: get_item_put_item)
  with assms show ?thesis
    by (simp add: completion_view_def item_field_def item_event_signalled_def
        split: option.splits)
qed

lemma view_items:
  "completion_view (w\<lparr>items := n\<rparr>) a =
     (item_field result w a, n, item_field done_flag w a, item_event_signalled w a)"
  by (simp add: completion_view_def item_field_def item_event_signalled_def get_item_def
      get_event_def split: option.splits)

lemma view_notified:
  assumes g: "get_item w a = Some it" and ok: "item_ok w it"
  shows "completion_view (notified a it w) a =
         (Some (result it), items w, Some (done_flag it),
          if flags_item it AND WORK_ITEM_FLAG_AUTO_RELEASE \<noteq> 0 then item_event_signalled w a
          else map_option (\<lambda>s. True) (item_event_signalled w a))"
proof (cases "flags_item it AND WORK_ITEM_FLAG_AUTO_RELEASE \<noteq> 0")
  case True
  from g have "a < length (item_mem w)" by (rule get_item_less)
  then have "get_item ((put_item a (it\<lparr>next_item := free w\<rparr>) w)\<lparr>free := Some a\<rparr>) a =
      Some (it\<lparr>next_item := free w\<rparr>)"
    by (simp add: get_item_def put_item_def cell_update)
  moreover have "get_event ((put_item a (it\<lparr>next_item := free w\<rparr>) w)\<lparr>free := Some a\<rparr>) e =
      get_event w e" for e
    by (simp add: get_event_def put_item_def)
  ultimately show ?thesis using True g
    by (simp add: notified_def completion_view_def item_field_def item_event_signalled_def
        split: option.splits)
next
  case False
  show ?thesis
  proof (cases "event it")
    case None
    with False g show ?thesis
      by (simp add: notified_def completion_view_def item_field_def item_event_signalled_def)
  next
    case (Some e)
    with ok obtain ev where ev: "get_event w e = Some ev" by (auto simp: item_ok_def)
    then have lt: "e < length (event_mem w)" by (rule get_event_less)
    let ?w = "w\<lparr>event_mem := (event_mem w)[e := Some (ev\<lparr>signalled := True\<rparr>)]\<rparr>"
    have gi: "get_item ?w a = Some it" using g by (simp add: get_item_def)
    have ge: "get_event ?w e = Some (ev\<lparr>signalled := True\<rparr>)"
      using lt by (simp add: get_event_update)
    have n: "notified a it w = ?w" using False Some ev by (simp add: notified_def)
    show ?thesis unfolding n using False Some g gi ge ev
      by (simp add: completion_view_def item_field_def item_event_signalled_def)
  qed
qed

text \<open>
  C4. The order of the completion effects. For an item that is not done, the states
  that \<open>process_item\<close> goes through, in the order in which it reaches them, are: first the result
  is the value of the callback at the parameter while \<open>items\<close>, \<open>done\<close> and the event are
  as before; then \<open>items\<close> is one less; then \<open>done\<close> is true, with the result in place
  and the event as before; last, for an item that is not auto-release and has an event,
  the event is signalled. \<open>done\<close> goes from false to true once, after the result.
\<close>

theorem completion_order:
  assumes g: "get_item w a = Some it" and nd: "\<not> done_flag it" and ok: "item_ok w it"
  shows "\<exists>w1 w2 w3 w4.
     process_item others a w = Inr [w1, w2, w3, w4] \<and>
     completion_view w a =
       (Some (result it), items w, Some False, item_event_signalled w a) \<and>
     completion_view w1 a =
       (Some (callback it (param it)), items w, Some False, item_event_signalled w a) \<and>
     completion_view w2 a =
       (Some (callback it (param it)), items w - 1, Some False, item_event_signalled w a) \<and>
     completion_view w3 a =
       (Some (callback it (param it)), items w - 1, Some True, item_event_signalled w a) \<and>
     completion_view w4 a =
       (Some (callback it (param it)), items w - 1, Some True,
        if flags_item it AND WORK_ITEM_FLAG_AUTO_RELEASE \<noteq> 0 then item_event_signalled w a
        else map_option (\<lambda>s. True) (item_event_signalled w a))"
proof -
  let ?it1 = "it\<lparr>result := callback it (param it)\<rparr>"
  let ?w1 = "put_item a ?it1 w"
  let ?w2 = "decrement_items ?w1"
  let ?w3 = "put_item a (finished it) ?w2"
  let ?w4 = "notified a (finished it) ?w3"
  let ?sig = "item_event_signalled w a"
  from g have lt: "a < length (item_mem w)" by (rule get_item_less)
  have s1: "store_result a w = Inr ?w1" using g by (rule store_result_eq)
  have g1: "get_item ?w1 a = Some ?it1" using lt by (simp add: get_item_put_item)
  then have g2: "get_item ?w2 a = Some ?it1" by simp
  then have s3: "set_done a ?w2 = Inr ?w3"
    by (simp add: set_done_eq finished_def)
  have g3: "get_item ?w3 a = Some (finished it)"
    using g2 get_item_less [OF g2] by (simp add: get_item_put_item)
  have ok3: "item_ok ?w3 (finished it)"
    using ok by (simp add: item_ok_def finished_def split: option.splits)
  have s4: "notify_done others a ?w3 = Inr ?w4"
    using g3 ok3 by (simp add: notify_done_eq finished_def)
  have p: "process_item others a w = Inr [?w1, ?w2, ?w3, ?w4]"
    using s1 s3 s4 by (simp add: process_item_def)
  have v0: "completion_view w a = (Some (result it), items w, Some False, ?sig)"
    using g nd by (simp add: completion_view_def item_field_def)
  have v1: "completion_view ?w1 a = (Some (callback it (param it)), items w, Some False, ?sig)"
    using view_put [OF g, of ?it1] nd by simp
  have sig1: "item_event_signalled ?w1 a = ?sig"
    using v1 by (simp add: completion_view_def)
  have v2: "completion_view ?w2 a =
      (Some (callback it (param it)), items w - 1, Some False, ?sig)"
    using v1 unfolding decrement_items_eq view_items
    by (simp add: completion_view_def put_item_def)
  have sig2: "item_event_signalled ?w2 a = ?sig"
    using v2 by (simp add: completion_view_def)
  have v3: "completion_view ?w3 a =
      (Some (callback it (param it)), items w - 1, Some True, ?sig)"
    using view_put [OF g2, of "finished it"] sig2
    by (simp add: finished_def decrement_items_eq)
  have sig3: "item_event_signalled ?w3 a = ?sig"
    using v3 by (simp add: completion_view_def)
  have v4: "completion_view ?w4 a =
      (Some (callback it (param it)), items w - 1, Some True,
        if flags_item it AND WORK_ITEM_FLAG_AUTO_RELEASE \<noteq> 0 then ?sig
        else map_option (\<lambda>s. True) ?sig)"
    using view_notified [OF g3 ok3] sig3
    by (simp add: finished_def decrement_items_eq)
  from p v0 v1 v2 v3 v4 show ?thesis by blast
qed

theorem completion_order_witness:
  "get_item taken_item_world 0 = Some waited_item \<and> \<not> done_flag waited_item \<and>
   item_ok taken_item_world waited_item \<and>
   completion_view taken_item_world 0 = (Some 0, 1, Some False, Some False) \<and>
   (\<exists>w1 w2 w3 w4.
      process_item (\<lambda>w. w) 0 taken_item_world = Inr [w1, w2, w3, w4] \<and>
      completion_view w1 0 = (Some 49, 1, Some False, Some False) \<and>
      completion_view w2 0 = (Some 49, 0, Some False, Some False) \<and>
      completion_view w3 0 = (Some 49, 0, Some True, Some False) \<and>
      completion_view w4 0 = (Some 49, 0, Some True, Some True))"
proof -
  have g: "get_item taken_item_world 0 = Some waited_item"
    by (simp add: taken_item_world_def get_item_def cell_def)
  have nd: "\<not> done_flag waited_item" by (simp add: waited_item_def)
  have ok: "item_ok taken_item_world waited_item"
    by (simp add: item_ok_def waited_item_def taken_item_world_def get_event_def cell_def)
  have sg: "item_event_signalled taken_item_world 0 = Some False"
    using g by (simp add: item_event_signalled_def)
      (simp add: waited_item_def taken_item_world_def get_event_def cell_def)
  have f: "flags_item waited_item AND WORK_ITEM_FLAG_AUTO_RELEASE = 0"
    "callback waited_item (param waited_item) = 49" "result waited_item = 0"
    by (simp_all add: waited_item_def)
  have i: "items taken_item_world = 1" by (simp add: taken_item_world_def)
  from completion_order [OF g nd ok, of "\<lambda>w. w"] sg f i show ?thesis
    using g nd ok by auto
qed

subsection \<open>Facts about lists of items\<close>

lemma chain_cong:
  "(\<And>x. x \<in> set xs \<Longrightarrow> map_option next_item (cell m' x) = map_option next_item (cell m x)) \<Longrightarrow>
   is_chain m' p xs = is_chain m p xs"
proof (induction xs arbitrary: p)
  case Nil
  then show ?case by simp
next
  case (Cons a as)
  have "map_option next_item (cell m' a) = map_option next_item (cell m a)"
    using Cons.prems by simp
  moreover have "is_chain m' q as = is_chain m q as" for q
    using Cons.IH Cons.prems by simp
  ultimately show ?case
    by (cases "cell m a"; cases "cell m' a") auto
qed

lemma chain_cell: "is_chain m p xs \<Longrightarrow> x \<in> set xs \<Longrightarrow> cell m x \<noteq> None"
  by (induction xs arbitrary: p) (auto split: option.splits)

lemma chain_update_other:
  "a \<notin> set xs \<Longrightarrow> is_chain (m[a := v]) p xs = is_chain m p xs"
  by (rule chain_cong) (auto simp: cell_update)

lemma chain_update_same_next:
  "cell m a = Some it0 \<Longrightarrow> next_item it = next_item it0 \<Longrightarrow>
   is_chain (m[a := Some it]) p xs = is_chain m p xs"
  by (rule chain_cong) (auto simp: cell_update)

lemma chain_append_cell:
  "is_chain m p xs \<Longrightarrow> is_chain (m @ [v]) p xs"
proof -
  assume c: "is_chain m p xs"
  have "is_chain (m @ [v]) p xs = is_chain m p xs"
  proof (rule chain_cong)
    fix x assume "x \<in> set xs"
    with c have "cell m x \<noteq> None" by (rule chain_cell)
    then have "x < length m" by (auto simp: cell_def split: if_splits)
    then show "map_option next_item (cell (m @ [v]) x) = map_option next_item (cell m x)"
      by (simp add: cell_append)
  qed
  with c show ?thesis by simp
qed

lemma chain_splice:
  "is_chain m p xs \<Longrightarrow> xs \<noteq> [] \<Longrightarrow> distinct xs \<Longrightarrow> set xs \<inter> set cs = {} \<Longrightarrow>
   is_chain m q cs \<Longrightarrow> cell m (last xs) = Some it \<Longrightarrow>
   is_chain (m[last xs := Some (it\<lparr>next_item := q\<rparr>)]) p (xs @ cs)"
proof (induction xs arbitrary: p)
  case Nil
  then show ?case by simp
next
  case (Cons a as)
  from Cons.prems(1) obtain ia where pa: "p = Some a" and ia: "cell m a = Some ia"
    and rest: "is_chain m (next_item ia) as"
    by (auto split: option.splits)
  show ?case
  proof (cases "as = []")
    case True
    with rest have n: "next_item ia = None" by simp
    from True Cons.prems(6) ia have it: "it = ia" by simp
    from ia have lt: "a < length m" by (rule cell_Some_less)
    from Cons.prems(4) have "a \<notin> set cs" by simp
    then have "is_chain (m[a := Some (it\<lparr>next_item := q\<rparr>)]) q cs = is_chain m q cs"
      by (rule chain_update_other)
    with Cons.prems(5) True pa lt show ?thesis
      by (simp add: cell_update)
  next
    case False
    then have l: "last (a # as) = last as" by simp
    from Cons.prems(3) have d: "distinct as" and na: "a \<notin> set as" by simp_all
    from False have "last as \<in> set as" by simp
    with na have ne: "last as \<noteq> a" by auto
    from Cons.prems(4) have dj: "set as \<inter> set cs = {}" by auto
    from Cons.prems(6) l have c: "cell m (last as) = Some it" by simp
    from Cons.IH [OF rest False d dj Cons.prems(5) c]
    have "is_chain (m[last as := Some (it\<lparr>next_item := q\<rparr>)]) (next_item ia) (as @ cs)" .
    moreover from ia ne have "cell (m[last as := Some (it\<lparr>next_item := q\<rparr>)]) a = Some ia"
      by (simp add: cell_update)
    ultimately show ?thesis using pa l by simp
  qed
qed

lemma lock_ready_acquire:
  assumes "lock_ready l"
  shows "scalable_lock_acquire l =
         Some (nextindex l AND 15,
               l\<lparr>nextindex := nextindex l + 1,
                 slot := (slot l)[unat (nextindex l AND 15) := False]\<rparr>)"
  using assms
  by (simp add: scalable_lock_acquire_def lock_ticket_eq lock_try_True lock_ready_def)

lemma lock_acquire_release:
  assumes "lock_ready l" and "scalable_lock_acquire l = Some (s, l1)"
  shows "scalable_lock_release l1 s = lock_cycle l"
proof -
  from assms have s: "s = nextindex l AND 15"
    and l1: "l1 = l\<lparr>nextindex := nextindex l + 1,
                     slot := (slot l)[unat (nextindex l AND 15) := False]\<rparr>"
    by (auto simp: lock_ready_acquire)
  show ?thesis unfolding s l1
    by (simp add: scalable_lock_release_eq lock_cycle_def succ_and15_rotate)
qed


subsection \<open>Facts about draining the pending list\<close>

lemma notified_fields [simp]:
  "list_head (notified a it w) = list_head w"
  "tailptr (notified a it w) = tailptr w"
  "lock (notified a it w) = lock w"
  "items (notified a it w) = items w"
  "waiting (notified a it w) = waiting w"
  "doneevent (notified a it w) = doneevent w"
  "threads (notified a it w) = threads w"
  by (simp_all add: notified_def put_item_def split: option.splits)

lemma put_item_fields [simp]:
  "list_head (put_item a it w) = list_head w"
  "tailptr (put_item a it w) = tailptr w"
  "lock (put_item a it w) = lock w"
  "waiting (put_item a it w) = waiting w"
  "doneevent (put_item a it w) = doneevent w"
  "threads (put_item a it w) = threads w"
  "free (put_item a it w) = free w"
  "event_mem (put_item a it w) = event_mem w"
  by (simp_all add: put_item_def)






lemma word_of_nat_Suc_minus: "(of_nat (Suc n) :: 32 word) - 1 = of_nat n"
  by simp


lemma item_ok_same_events: "event_mem w' = event_mem w \<Longrightarrow> item_ok w' it = item_ok w it"
  by (simp add: item_ok_def get_event_def split: option.splits)


lemma popped_fields [simp]:
  "list_head (popped it w) = next_item it"
  "tailptr (popped it w) = (if next_item it = None then ListHead else tailptr w)"
  "lock (popped it w) = lock_cycle (lock w)"
  "items (popped it w) = items w"
  "waiting (popped it w) = waiting w"
  "doneevent (popped it w) = doneevent w"
  "threads (popped it w) = threads w"
  "free (popped it w) = free w"
  "item_mem (popped it w) = item_mem w"
  "event_mem (popped it w) = event_mem w"
  by (simp_all add: popped_def)

lemma get_item_popped [simp]: "get_item (popped it w) x = get_item w x"
  by (simp add: get_item_def)

lemma get_event_popped [simp]: "get_event (popped it w) e = get_event w e"
  by (simp add: get_event_def)

lemma get_item_items [simp]: "get_item (w\<lparr>items := n\<rparr>) x = get_item w x"
  by (simp add: get_item_def)

lemma get_event_items [simp]: "get_event (w\<lparr>items := n\<rparr>) e = get_event w e"
  by (simp add: get_event_def)








lemma after_item_fields [simp]:
  "list_head (after_item a it w) = next_item it"
  "tailptr (after_item a it w) = (if next_item it = None then ListHead else tailptr w)"
  "lock (after_item a it w) = lock_cycle (lock w)"
  "items (after_item a it w) = items w - 1"
  "waiting (after_item a it w) = waiting w"
  "doneevent (after_item a it w) = doneevent w"
  "threads (after_item a it w) = threads w"
  by (simp_all add: after_item_def)






subsection \<open>Facts about building a chain\<close>

lemma build_tail:
  assumes g: "get_item w a = Some it0" and nl: "item_tailptr loc \<noteq> ListHead"
    and tb: "\<And>b. item_tailptr loc = NextOf b \<Longrightarrow> get_item w b \<noteq> None"
  shows "bindf (read_item w a) (\<lambda>it.
           bindf (store_ref (item_tailptr loc) (Some a) loc
                    (put_item a
                       (it\<lparr>next_item := None, callback := cb, param := parambase loc,
                           result := 0, flags_item := fl, done_flag := False\<rparr>) w))
             (\<lambda>(loc1, w3).
                Inr (Some (loc1\<lparr>item_tailptr := NextOf a,
                                parambase := parambase loc + scast paramstep\<rparr>), w3))) =
         Inr (Some (advanced a paramstep loc),
              attached a (filled cb (parambase loc) fl it0) loc w)"
proof (cases "item_tailptr loc")
  case ListHead
  with nl show ?thesis by simp
next
  case LocalItemlist
  with g show ?thesis
    by (simp add: read_item_def store_ref_def attached_def advanced_def filled_def)
next
  case (NextOf b)
  let ?f = "filled cb (parambase loc) fl it0"
  from g have lt: "a < length (item_mem w)" by (rule get_item_less)
  from tb [OF NextOf] obtain itb0 where "get_item w b = Some itb0" by auto
  with lt obtain itb where gb: "get_item (put_item a ?f w) b = Some itb"
    by (cases "b = a") (simp_all add: get_item_put_item)
  then have rb: "read_item (put_item a ?f w) b = Inr itb" by (simp add: read_item_def)
  from gb NextOf have at: "attached a ?f loc w = put_item b (itb\<lparr>next_item := Some a\<rparr>) (put_item a ?f w)"
    by (simp add: attached_def)
  from NextOf have ad: "advanced a paramstep loc =
      loc\<lparr>item_tailptr := NextOf a, parambase := parambase loc + scast paramstep\<rparr>"
    by (simp add: advanced_def)
  have st: "store_ref (NextOf b) (Some a) loc (put_item a ?f w) =
      Inr (loc, put_item b (itb\<lparr>next_item := Some a\<rparr>) (put_item a ?f w))"
    using rb by (simp add: store_ref_def)
  have rd: "read_item w a = Inr it0" using g by (simp add: read_item_def)
  show ?thesis
    unfolding at ad NextOf rd bindf_Inr
    using st by (simp add: filled_def)
qed

lemma build_item_recycled:
  assumes f: "free w = Some a" and g: "get_item w a = Some it0"
    and nl: "item_tailptr loc \<noteq> ListHead"
    and tb: "\<And>b. item_tailptr loc = NextOf b \<Longrightarrow> get_item w b \<noteq> None"
  shows "build_item cb paramstep fl loc w =
         Inr (Some (advanced a paramstep loc),
              attached a (filled cb (parambase loc) fl it0) loc (w\<lparr>free := next_item it0\<rparr>))"
proof -
  let ?w1 = "w\<lparr>free := next_item it0\<rparr>"
  from f g have tf: "take_free w = Inr (Some a, ?w1)"
    by (simp add: take_free_def read_item_def)
  have g1: "get_item ?w1 a = Some it0" using g by (simp add: get_item_def)
  have tb1: "\<And>b. item_tailptr loc = NextOf b \<Longrightarrow> get_item ?w1 b \<noteq> None"
    using tb by (simp add: get_item_def)
  note bt = build_tail [OF g1 nl tb1, where cb = cb and fl = fl and paramstep = paramstep]
  show ?thesis
    unfolding build_item_def tf bindf_Inr
    by (simp only: prod.case option.case bindf_Inr bt)
qed

lemma take_alloc_ok:
  "\<forall>b \<in> set (alloc_plan w). b \<Longrightarrow> take_alloc w = (True, w\<lparr>alloc_plan := tl (alloc_plan w)\<rparr>)"
  by (cases "alloc_plan w") (simp_all add: take_alloc_def)

lemma build_item_fresh:
  assumes f: "free w = None" and al: "\<forall>b \<in> set (alloc_plan w). b"
    and nl: "item_tailptr loc \<noteq> ListHead"
    and tb: "\<And>b. item_tailptr loc = NextOf b \<Longrightarrow> get_item w b \<noteq> None"
  shows "build_item cb paramstep fl loc w =
         Inr (Some (advanced (length (item_mem w)) paramstep loc),
              attached (length (item_mem w))
                (filled cb (parambase loc) fl (indeterminate_item\<lparr>event := None, queue := TheQueue\<rparr>))
                loc (malloced w))"
proof -
  let ?a = "length (item_mem w)"
  let ?it = "indeterminate_item\<lparr>event := None, queue := TheQueue\<rparr>"
  let ?wa = "w\<lparr>alloc_plan := tl (alloc_plan w)\<rparr>"
  let ?wm = "?wa\<lparr>item_mem := item_mem ?wa @ [Some indeterminate_item]\<rparr>"
  from f have tf: "take_free w = Inr (None, w)" by (simp add: take_free_def)
  from al have ta: "take_alloc w = (True, ?wa)" by (rule take_alloc_ok)
  then have ma: "malloc_item w = (Some ?a, ?wm)"
    by (simp add: malloc_item_def)
  have rm: "read_item ?wm ?a = Inr indeterminate_item"
    by (simp add: read_item_def get_item_def cell_append)
  have pm: "put_item ?a ?it ?wm = malloced w"
    using ta by (simp add: put_item_def malloced_def)
  have g1: "get_item (malloced w) ?a = Some ?it"
    by (simp add: malloced_def get_item_def cell_append)
  have tb1: "\<And>b. item_tailptr loc = NextOf b \<Longrightarrow> get_item (malloced w) b \<noteq> None"
  proof -
    fix b assume "item_tailptr loc = NextOf b"
    from tb [OF this] obtain itb where "get_item w b = Some itb" by auto
    then have "b < length (item_mem w)" "cell (item_mem w) b = Some itb"
      by (simp_all add: get_item_less get_item_def)
    then show "get_item (malloced w) b \<noteq> None"
      by (simp add: malloced_def get_item_def cell_append)
  qed
  note bt = build_tail [OF g1 nl tb1, where cb = cb and fl = fl and paramstep = paramstep]
  show ?thesis
    unfolding build_item_def tf bindf_Inr
    by (simp only: prod.case option.case bindf_Inr ma rm pm bt Let_def)
qed

lemma attached_frame:
  "attached a it loc w = w\<lparr>item_mem := item_mem (attached a it loc w)\<rparr>"
  by (simp add: attached_def put_item_def split: tailref.splits option.splits)

lemma attached_first:
  "item_tailptr loc = LocalItemlist \<Longrightarrow>
   item_mem (attached a it loc w) = (item_mem w)[a := Some it]"
  by (simp add: attached_def put_item_def)

lemma attached_next:
  assumes "item_tailptr loc = NextOf b" "b \<noteq> a" "get_item w b = Some itb"
  shows "item_mem (attached a it loc w) =
         (item_mem w)[a := Some it, b := Some (itb\<lparr>next_item := Some a\<rparr>)]"
proof -
  from assms have "get_item (put_item a it w) b = Some itb"
    by (simp add: get_item_put_item)
  with assms(1) show ?thesis by (simp add: attached_def put_item_def)
qed

lemma same_but_next_refl [simp]: "same_but_next it it"
  by (simp add: same_but_next_def)

lemma same_but_next_upd [simp]: "same_but_next (it\<lparr>next_item := n\<rparr>) it"
  by (simp add: same_but_next_def)

lemma same_but_next_fields:
  "same_but_next it' it \<Longrightarrow>
   callback it' = callback it \<and> param it' = param it \<and> result it' = result it \<and>
   done_flag it' = done_flag it \<and> flags_item it' = flags_item it \<and> event it' = event it \<and>
   queue it' = queue it"
proof -
  assume "same_but_next it' it"
  then have e: "it' = it\<lparr>next_item := next_item it'\<rparr>" by (simp add: same_but_next_def)
  have "callback it' = callback it" by (subst e) simp
  moreover have "param it' = param it" by (subst e) simp
  moreover have "result it' = result it" by (subst e) simp
  moreover have "done_flag it' = done_flag it" by (subst e) simp
  moreover have "flags_item it' = flags_item it" by (subst e) simp
  moreover have "event it' = event it" by (subst e) simp
  moreover have "queue it' = queue it" by (subst e) simp
  ultimately show ?thesis by simp
qed

lemma item_ok_next [simp]: "item_ok w (it\<lparr>next_item := n\<rparr>) = item_ok w it"
  by (simp add: item_ok_def)

lemma item_ok_filled [simp]: "item_ok w (filled cb pb fl it) = item_ok w it"
  by (simp add: item_ok_def filled_def)

lemma item_ok_attached [simp]: "item_ok (attached a i loc w) it = item_ok w it"
proof -
  have "event_mem (attached a i loc w) = event_mem w"
    by (subst attached_frame) simp
  then show ?thesis by (rule item_ok_same_events)
qed

lemma attached_cells:
  assumes b: "building w ps bs fs loc" and g: "get_item w a = Some it1"
    and na: "a \<notin> set (ps @ bs @ fs)"
  shows "get_item (attached a it loc w) a = Some it"
    and "\<And>x. x \<noteq> a \<Longrightarrow> (bs = [] \<or> x \<noteq> last bs) \<Longrightarrow>
           get_item (attached a it loc w) x = get_item w x"
    and "bs \<noteq> [] \<Longrightarrow>
           \<exists>itb. get_item w (last bs) = Some itb \<and>
                 get_item (attached a it loc w) (last bs) = Some (itb\<lparr>next_item := Some a\<rparr>)"
proof -
  from g have lt: "a < length (item_mem w)" by (rule get_item_less)
  from b have tp: "item_tailptr loc = (if bs = [] then LocalItemlist else NextOf (last bs))"
    and cb: "is_chain (item_mem w) (itemlist loc) bs"
    by (simp_all add: building_def)
  show "get_item (attached a it loc w) a = Some it"
    and "\<And>x. x \<noteq> a \<Longrightarrow> (bs = [] \<or> x \<noteq> last bs) \<Longrightarrow>
           get_item (attached a it loc w) x = get_item w x"
    and "bs \<noteq> [] \<Longrightarrow>
           \<exists>itb. get_item w (last bs) = Some itb \<and>
                 get_item (attached a it loc w) (last bs) = Some (itb\<lparr>next_item := Some a\<rparr>)"
  proof -
    {
      assume e: "bs = []"
      with tp have "item_mem (attached a it loc w) = (item_mem w)[a := Some it]"
        by (simp add: attached_first)
      with lt have "get_item (attached a it loc w) a = Some it"
        and "\<And>x. x \<noteq> a \<Longrightarrow> get_item (attached a it loc w) x = get_item w x"
        by (simp_all add: get_item_def cell_update)
    } note empty = this
    {
      assume ne: "bs \<noteq> []"
      then have lb: "last bs \<in> set bs" by simp
      with na have d: "last bs \<noteq> a" by auto
      from cb lb have "cell (item_mem w) (last bs) \<noteq> None" by (rule chain_cell)
      then obtain itb where gb: "get_item w (last bs) = Some itb"
        by (auto simp: get_item_def)
      then have ltb: "last bs < length (item_mem w)" by (rule get_item_less)
      from ne tp have "item_tailptr loc = NextOf (last bs)" by simp
      from attached_next [OF this d gb]
      have m: "item_mem (attached a it loc w) =
          (item_mem w)[a := Some it, last bs := Some (itb\<lparr>next_item := Some a\<rparr>)]" .
      from m lt ltb d gb have "get_item (attached a it loc w) a = Some it"
        and "\<And>x. x \<noteq> a \<Longrightarrow> x \<noteq> last bs \<Longrightarrow> get_item (attached a it loc w) x = get_item w x"
        and "\<exists>itb. get_item w (last bs) = Some itb \<and>
                 get_item (attached a it loc w) (last bs) = Some (itb\<lparr>next_item := Some a\<rparr>)"
        by (simp_all add: get_item_def cell_update)
    } note nonempty = this
    show "get_item (attached a it loc w) a = Some it"
      using empty(1) nonempty(1) by blast
    show "\<And>x. x \<noteq> a \<Longrightarrow> (bs = [] \<or> x \<noteq> last bs) \<Longrightarrow>
           get_item (attached a it loc w) x = get_item w x"
      using empty(2) nonempty(2) by blast
    show "bs \<noteq> [] \<Longrightarrow>
           \<exists>itb. get_item w (last bs) = Some itb \<and>
                 get_item (attached a it loc w) (last bs) = Some (itb\<lparr>next_item := Some a\<rparr>)"
      using nonempty(3) by blast
  qed
qed

lemma attached_same_but_next:
  assumes b: "building w ps bs fs loc" and g: "get_item w a = Some it1"
    and na: "a \<notin> set (ps @ bs @ fs)" and x: "x \<noteq> a"
  shows "case get_item w x of
           None \<Rightarrow> get_item (attached a it loc w) x = None
         | Some i \<Rightarrow> (\<exists>i'. get_item (attached a it loc w) x = Some i' \<and> same_but_next i' i)"
proof (cases "bs = [] \<or> x \<noteq> last bs")
  case True
  from attached_cells(2) [OF b g na x True, of it]
  show ?thesis by (simp split: option.splits)
next
  case False
  then have ne: "bs \<noteq> []" and xl: "x = last bs" by simp_all
  from attached_cells(3) [OF b g na ne, of it] xl
  show ?thesis by auto
qed

lemma item_ok_same_but_next: "same_but_next i' i \<Longrightarrow> item_ok w i' = item_ok w i"
  using same_but_next_fields [of i' i] by (simp add: item_ok_def)

lemma attach_step:
  assumes b: "building w ps bs fs loc" and g: "get_item w a = Some it1"
    and na: "a \<notin> set (ps @ bs @ fs)" and ok: "item_ok w it1"
    and bo: "built_ok cb pbase paramstep fl w bs"
    and pb: "parambase loc = pbase + of_nat (length bs) * scast paramstep"
  shows "building (attached a (filled cb (parambase loc) fl it1) loc w) ps (bs @ [a]) fs
           (advanced a paramstep loc)"
    and "built_ok cb pbase paramstep fl (attached a (filled cb (parambase loc) fl it1) loc w)
           (bs @ [a])"
    and "parambase (advanced a paramstep loc) =
           pbase + of_nat (length (bs @ [a])) * scast paramstep"
proof -
  let ?it = "filled cb (parambase loc) fl it1"
  let ?w = "attached a ?it loc w"
  let ?loc = "advanced a paramstep loc"
  note cells = attached_cells [OF b g na, where it = ?it]
  from b have cp: "is_chain (item_mem w) (list_head w) ps"
    and cf: "is_chain (item_mem w) (free w) fs"
    and cb: "is_chain (item_mem w) (itemlist loc) bs"
    and d: "distinct (ps @ bs @ fs)"
    and tp: "item_tailptr loc = (if bs = [] then LocalItemlist else NextOf (last bs))"
    and io: "items_ok w (ps @ bs @ fs)"
    by (simp_all add: building_def)
  have fr: "list_head ?w = list_head w" "free ?w = free w"
    by (subst attached_frame, simp)+
  have outside: "cell (item_mem ?w) x = cell (item_mem w) x"
    if "x \<in> set ps \<union> set fs" for x
  proof -
    from that na have "x \<noteq> a" by auto
    moreover have "bs = [] \<or> x \<noteq> last bs"
    proof (cases "bs = []")
      case False
      then have "last bs \<in> set bs" by simp
      with that d show ?thesis by auto
    qed simp
    ultimately have "get_item ?w x = get_item w x" by (rule cells(2))
    then show ?thesis by (simp add: get_item_def)
  qed
  have cp': "is_chain (item_mem ?w) (list_head ?w) ps"
  proof -
    have "is_chain (item_mem ?w) (list_head w) ps = is_chain (item_mem w) (list_head w) ps"
      by (rule chain_cong) (simp add: outside)
    with cp fr show ?thesis by simp
  qed
  have cf': "is_chain (item_mem ?w) (free ?w) fs"
  proof -
    have "is_chain (item_mem ?w) (free w) fs = is_chain (item_mem w) (free w) fs"
      by (rule chain_cong) (simp add: outside)
    with cf fr show ?thesis by simp
  qed
  from g have lt: "a < length (item_mem w)" by (rule get_item_less)
  have nx: "next_item ?it = None" by (simp add: filled_def)
  have cb': "is_chain (item_mem ?w) (itemlist ?loc) (bs @ [a])"
  proof (cases "bs = []")
    case True
    with tp have "itemlist ?loc = Some a" by (simp add: advanced_def)
    moreover from cells(1) have "cell (item_mem ?w) a = Some ?it" by (simp add: get_item_def)
    ultimately show ?thesis using True nx by simp
  next
    case False
    with tp have il: "itemlist ?loc = itemlist loc" and t: "item_tailptr loc = NextOf (last bs)"
      by (simp_all add: advanced_def)
    from False have lb: "last bs \<in> set bs" by simp
    with na have ne: "last bs \<noteq> a" by auto
    from cb lb have "cell (item_mem w) (last bs) \<noteq> None" by (rule chain_cell)
    then obtain itb where gb: "get_item w (last bs) = Some itb" by (auto simp: get_item_def)
    let ?m1 = "(item_mem w)[a := Some ?it]"
    from attached_next [OF t ne gb]
    have m: "item_mem ?w = ?m1[last bs := Some (itb\<lparr>next_item := Some a\<rparr>)]" .
    from na have "a \<notin> set bs" by simp
    then have c1: "is_chain ?m1 (itemlist loc) bs"
      using cb by (simp add: chain_update_other)
    from lt nx have c2: "is_chain ?m1 (Some a) [a]" by (simp add: cell_update)
    from gb ne have c3: "cell ?m1 (last bs) = Some itb"
      by (simp add: get_item_def cell_update)
    from d have db: "distinct bs" by simp
    from na have dj: "set bs \<inter> set [a] = {}" by simp
    from chain_splice [OF c1 False db dj c2 c3] m il show ?thesis by simp
  qed
  have d': "distinct (ps @ (bs @ [a]) @ fs)" using d na by auto
  have tp': "item_tailptr ?loc = (if bs @ [a] = [] then LocalItemlist else NextOf (last (bs @ [a])))"
    by (simp add: advanced_def)
  have old: "case get_item ?w x of None \<Rightarrow> False | Some i \<Rightarrow> item_ok ?w i"
    if x: "x \<in> set (ps @ bs @ fs)" for x
  proof -
    from x na have xa: "x \<noteq> a" by auto
    from io x obtain i where i: "get_item w x = Some i" "item_ok w i"
      by (auto simp: items_ok_def split: option.splits)
    from attached_same_but_next [OF b g na xa, where it = ?it] i(1)
    obtain i' where "get_item ?w x = Some i'" "same_but_next i' i" by auto
    with i(2) show ?thesis by (simp add: item_ok_same_but_next)
  qed
  have new: "case get_item ?w a of None \<Rightarrow> False | Some i \<Rightarrow> item_ok ?w i"
    using cells(1) ok by simp
  have io': "items_ok ?w (ps @ (bs @ [a]) @ fs)"
    unfolding items_ok_def using old new by auto
  from cp' cf' cb' d' tp' io'
  show "building ?w ps (bs @ [a]) fs ?loc" by (simp add: building_def)
  show "built_ok cb pbase paramstep fl ?w (bs @ [a])"
    unfolding built_ok_def
  proof (intro allI impI)
    fix i assume "i < length (bs @ [a])"
    then consider "i < length bs" | "i = length bs" by fastforce
    then show "case get_item ?w ((bs @ [a]) ! i) of None \<Rightarrow> False
        | Some it \<Rightarrow> callback it = cb \<and> param it = pbase + of_nat i * scast paramstep \<and>
            result it = 0 \<and> \<not> done_flag it \<and> flags_item it = fl"
    proof cases
      case 1
      then have e: "(bs @ [a]) ! i = bs ! i" by (simp add: nth_append)
      from 1 have "bs ! i \<in> set bs" by simp
      with na have xa: "bs ! i \<noteq> a" by auto
      from bo 1 obtain it0 where i0: "get_item w (bs ! i) = Some it0"
        and f0: "callback it0 = cb \<and> param it0 = pbase + of_nat i * scast paramstep \<and>
            result it0 = 0 \<and> \<not> done_flag it0 \<and> flags_item it0 = fl"
        by (auto simp: built_ok_def split: option.splits)
      from attached_same_but_next [OF b g na xa, where it = ?it] i0
      obtain i' where i': "get_item ?w (bs ! i) = Some i'" "same_but_next i' it0" by auto
      from same_but_next_fields [OF i'(2)] f0 i'(1) e show ?thesis by simp
    next
      case 2
      then have e: "(bs @ [a]) ! i = a" by simp
      from cells(1) pb 2 e show ?thesis by (simp add: filled_def)
    qed
  qed
  show "parambase ?loc = pbase + of_nat (length (bs @ [a])) * scast paramstep"
    using pb by (simp add: advanced_def algebra_simps)
qed

lemma untouched_refl: "untouched w w"
  by (simp add: untouched_def)

lemma untouched_trans: "untouched w w' \<Longrightarrow> untouched w' w'' \<Longrightarrow> untouched w w''"
proof -
  assume a: "untouched w w'" and b: "untouched w' w''"
  from b have "w'' = w'\<lparr>free := free w'', item_mem := item_mem w'', alloc_plan := alloc_plan w''\<rparr>"
    by (simp add: untouched_def)
  also from a have "w' = w\<lparr>free := free w', item_mem := item_mem w', alloc_plan := alloc_plan w'\<rparr>"
    by (simp add: untouched_def)
  finally show ?thesis by (simp add: untouched_def)
qed

lemma untouched_attached: "untouched w w2 \<Longrightarrow> untouched w (attached a it loc w2)"
proof -
  assume "untouched w w2"
  moreover have "untouched w2 (attached a it loc w2)"
    by (subst attached_frame) (simp add: untouched_def)
  ultimately show ?thesis by (rule untouched_trans)
qed

lemma items_ok_cong:
  assumes "\<And>x. x \<in> set xs \<Longrightarrow> get_item w' x = get_item w x" and "event_mem w' = event_mem w"
  shows "items_ok w' xs = items_ok w xs"
proof -
  have "item_ok w' it = item_ok w it" for it
    using assms(2) by (rule item_ok_same_events)
  with assms(1) show ?thesis by (simp add: items_ok_def cong: option.case_cong)
qed

lemma built_ok_cong:
  assumes "\<And>x. x \<in> set bs \<Longrightarrow> get_item w' x = get_item w x"
  shows "built_ok cb pbase paramstep fl w' bs = built_ok cb pbase paramstep fl w bs"
  using assms by (simp add: built_ok_def)

lemma building_tail_ok:
  assumes "building w ps bs fs loc"
  shows "item_tailptr loc \<noteq> ListHead"
    and "\<And>b. item_tailptr loc = NextOf b \<Longrightarrow> get_item w b \<noteq> None"
proof -
  from assms have tp: "item_tailptr loc = (if bs = [] then LocalItemlist else NextOf (last bs))"
    and cb: "is_chain (item_mem w) (itemlist loc) bs"
    by (simp_all add: building_def)
  from tp show "item_tailptr loc \<noteq> ListHead" by (simp split: if_splits)
  fix b assume "item_tailptr loc = NextOf b"
  with tp have "bs \<noteq> []" "b = last bs" by (auto split: if_splits)
  then have "b \<in> set bs" by simp
  with cb have "cell (item_mem w) b \<noteq> None" by (rule chain_cell)
  then show "get_item w b \<noteq> None" by (simp add: get_item_def)
qed

lemma build_item_step:
  assumes b: "building w ps bs fs loc"
    and bo: "built_ok cb pbase paramstep fl w bs"
    and pb: "parambase loc = pbase + of_nat (length bs) * scast paramstep"
    and al: "\<forall>b \<in> set (alloc_plan w). b"
  shows "\<exists>a loc' w'. build_item cb paramstep fl loc w = Inr (Some loc', w') \<and>
           building w' ps (bs @ [a]) (tl fs) loc' \<and>
           built_ok cb pbase paramstep fl w' (bs @ [a]) \<and>
           parambase loc' = pbase + of_nat (length (bs @ [a])) * scast paramstep \<and>
           (\<forall>b \<in> set (alloc_plan w'). b) \<and> untouched w w'"
proof (cases fs)
  case (Cons f fs')
  from b Cons obtain it0 where fr: "free w = Some f" and g: "get_item w f = Some it0"
    and cf: "is_chain (item_mem w) (next_item it0) fs'"
    by (auto simp: building_def get_item_def split: option.splits)
  let ?w2 = "w\<lparr>free := next_item it0\<rparr>"
  have gi: "get_item ?w2 x = get_item w x" for x by (simp add: get_item_def)
  from b Cons cf have b2: "building ?w2 ps bs fs' loc"
    using items_ok_cong [of "ps @ bs @ fs'" ?w2 w] gi
    by (auto simp: building_def items_ok_def)
  have g2: "get_item ?w2 f = Some it0" using g gi by simp
  from b Cons have na: "f \<notin> set (ps @ bs @ fs')" by (auto simp: building_def)
  from b Cons g have "item_ok w it0" by (auto simp: building_def items_ok_def)
  then have ok2: "item_ok ?w2 it0" using item_ok_same_events [of ?w2 w it0] by simp
  have bo2: "built_ok cb pbase paramstep fl ?w2 bs"
    using bo built_ok_cong [of bs ?w2 w] gi by simp
  note st = attach_step [OF b2 g2 na ok2 bo2 pb]
  note bi = build_item_recycled [OF fr g building_tail_ok [OF b],
      where cb = cb and paramstep = paramstep and fl = fl]
  have un: "untouched w (attached f (filled cb (parambase loc) fl it0) loc ?w2)"
    by (rule untouched_attached) (simp add: untouched_def)
  have al2: "\<forall>b \<in> set (alloc_plan (attached f (filled cb (parambase loc) fl it0) loc ?w2)). b"
    using al by (subst attached_frame) simp
  from bi st un al2 Cons show ?thesis by auto
next
  case Nil
  from b Nil have fr: "free w = None" by (simp add: building_def)
  let ?a = "length (item_mem w)"
  let ?it1 = "indeterminate_item\<lparr>event := None, queue := TheQueue\<rparr>"
  let ?w2 = "malloced w"
  from al have ta: "take_alloc w = (True, w\<lparr>alloc_plan := tl (alloc_plan w)\<rparr>)"
    by (rule take_alloc_ok)
  have mem: "item_mem ?w2 = item_mem w @ [Some ?it1]" by (simp add: malloced_def)
  have flds: "list_head ?w2 = list_head w" "free ?w2 = free w" "event_mem ?w2 = event_mem w"
    using ta by (simp_all add: malloced_def)
  have inside: "x < length (item_mem w) \<Longrightarrow> get_item ?w2 x = get_item w x" for x
    by (simp add: get_item_def mem cell_append)
  have chain_lt: "x < length (item_mem w)" if "is_chain (item_mem w) p xs" "x \<in> set xs" for p xs x
  proof -
    from that have "cell (item_mem w) x \<noteq> None" by (rule chain_cell)
    then show ?thesis by (auto simp: cell_def split: if_splits)
  qed
  from b Nil have cp: "is_chain (item_mem w) (list_head w) ps"
    and cb: "is_chain (item_mem w) (itemlist loc) bs"
    and d: "distinct (ps @ bs)" and io: "items_ok w (ps @ bs)"
    and tp: "item_tailptr loc = (if bs = [] then LocalItemlist else NextOf (last bs))"
    by (simp_all add: building_def)
  have lt: "x < length (item_mem w)" if "x \<in> set (ps @ bs)" for x
    using that chain_lt [OF cp] chain_lt [OF cb] by auto
  have io2: "items_ok ?w2 (ps @ bs)"
    using items_ok_cong [of "ps @ bs" ?w2 w] inside lt flds(3) io by simp
  from cp cb fr tp d io2 have b2: "building ?w2 ps bs [] loc"
    by (simp add: building_def mem flds chain_append_cell)
  have g2: "get_item ?w2 ?a = Some ?it1" by (simp add: get_item_def mem cell_append)
  have na: "?a \<notin> set (ps @ bs @ [])" using lt by auto
  have ok2: "item_ok ?w2 ?it1" by (simp add: item_ok_def)
  have bo2: "built_ok cb pbase paramstep fl ?w2 bs"
    using bo built_ok_cong [of bs ?w2 w] inside lt by simp
  note st = attach_step [OF b2 g2 na ok2 bo2 pb]
  note bi = build_item_fresh [OF fr al building_tail_ok [OF b],
      where cb = cb and paramstep = paramstep and fl = fl]
  have "untouched w ?w2" using ta by (simp add: untouched_def malloced_def)
  then have un: "untouched w (attached ?a (filled cb (parambase loc) fl ?it1) loc ?w2)"
    by (rule untouched_attached)
  have "alloc_plan ?w2 = tl (alloc_plan w)" using ta by (simp add: malloced_def)
  with al have "\<forall>b \<in> set (alloc_plan ?w2). b"
    by (cases "alloc_plan w") auto
  then have al2: "\<forall>b \<in> set (alloc_plan (attached ?a (filled cb (parambase loc) fl ?it1) loc ?w2)). b"
    by (subst attached_frame) simp
  from bi st un al2 Nil show ?thesis by auto
qed

lemma build_items_loop:
  assumes "building w ps bs fs loc"
    and "built_ok cb pbase paramstep fl w bs"
    and "parambase loc = pbase + of_nat (length bs) * scast paramstep"
    and "\<forall>b \<in> set (alloc_plan w). b"
  shows "\<exists>cs loc' w'. build_items k cb paramstep fl loc w = Inr (Some loc', w') \<and>
           length cs = k \<and> building w' ps (bs @ cs) (drop k fs) loc' \<and>
           built_ok cb pbase paramstep fl w' (bs @ cs) \<and>
           (\<forall>b \<in> set (alloc_plan w'). b) \<and> untouched w w'"
  using assms
proof (induction k arbitrary: w bs fs loc)
  case 0
  then show ?case by (auto simp: untouched_refl)
next
  case (Suc k)
  from build_item_step [OF Suc.prems] obtain a loc1 w1
    where bi: "build_item cb paramstep fl loc w = Inr (Some loc1, w1)"
      and b1: "building w1 ps (bs @ [a]) (tl fs) loc1"
      and bo1: "built_ok cb pbase paramstep fl w1 (bs @ [a])"
      and pb1: "parambase loc1 = pbase + of_nat (length (bs @ [a])) * scast paramstep"
      and al1: "\<forall>b \<in> set (alloc_plan w1). b" and un1: "untouched w w1"
    by blast
  from Suc.IH [OF b1 bo1 pb1 al1] obtain cs loc' w'
    where r: "build_items k cb paramstep fl loc1 w1 = Inr (Some loc', w')"
      and l: "length cs = k"
      and b': "building w' ps ((bs @ [a]) @ cs) (drop k (tl fs)) loc'"
      and bo': "built_ok cb pbase paramstep fl w' ((bs @ [a]) @ cs)"
      and al': "\<forall>b \<in> set (alloc_plan w'). b" and un': "untouched w1 w'"
    by blast
  have run: "build_items (Suc k) cb paramstep fl loc w = Inr (Some loc', w')"
    using bi r by simp
  have len: "length (a # cs) = Suc k" using l by simp
  have e: "(bs @ [a]) @ cs = bs @ (a # cs)" by simp
  have dr: "drop k (tl fs) = drop (Suc k) fs" by (simp add: drop_Suc)
  from un1 un' have un: "untouched w w'" by (rule untouched_trans)
  from run len b' bo' al' un show ?case
    unfolding e dr by blast
qed

lemma untouched_fields:
  assumes "untouched w w'"
  shows "list_head w' = list_head w" "tailptr w' = tailptr w" "lock w' = lock w"
    "items w' = items w" "threads w' = threads w" "thread w' = thread w"
    "livethreads w' = livethreads w" "waiting w' = waiting w" "doneevent w' = doneevent w"
    "event_mem w' = event_mem w" "flags w' = flags w"
proof -
  from assms have e: "w' = w\<lparr>free := free w', item_mem := item_mem w', alloc_plan := alloc_plan w'\<rparr>"
    by (simp add: untouched_def)
  show "list_head w' = list_head w" by (subst e) simp
  show "tailptr w' = tailptr w" by (subst e) simp
  show "lock w' = lock w" by (subst e) simp
  show "items w' = items w" by (subst e) simp
  show "threads w' = threads w" by (subst e) simp
  show "thread w' = thread w" by (subst e) simp
  show "livethreads w' = livethreads w" by (subst e) simp
  show "waiting w' = waiting w" by (subst e) simp
  show "doneevent w' = doneevent w" by (subst e) simp
  show "event_mem w' = event_mem w" by (subst e) simp
  show "flags w' = flags w" by (subst e) simp
qed

lemma enqueue_chain_eq:
  assumes lr: "lock_ready (lock w)" and nl: "tailptr w \<noteq> LocalItemlist"
    and tb: "\<And>b. tailptr w = NextOf b \<Longrightarrow> get_item w b \<noteq> None"
  shows "enqueue_chain loc w = Inr (spliced loc w)"
proof -
  from lr obtain s l1 where a: "scalable_lock_acquire (lock w) = Some (s, l1)"
    by (simp add: lock_ready_acquire)
  with lr have r: "scalable_lock_release l1 s = lock_cycle (lock w)"
    by (rule lock_acquire_release)
  show ?thesis
  proof (cases "tailptr w")
    case ListHead
    with a r show ?thesis by (simp add: enqueue_chain_def spliced_def)
  next
    case LocalItemlist
    with nl show ?thesis by simp
  next
    case (NextOf b)
    from tb [OF this] obtain it where "get_item w b = Some it" by auto
    with NextOf a r show ?thesis
      by (simp add: enqueue_chain_def spliced_def read_item_def)
  qed
qed

subsection \<open>Facts about enqueuing a chain\<close>

lemma spliced_fields [simp]:
  "tailptr (spliced loc w) = item_tailptr loc"
  "lock (spliced loc w) = lock_cycle (lock w)"
  "free (spliced loc w) = free w"
  "items (spliced loc w) = items w"
  "event_mem (spliced loc w) = event_mem w"
  by (simp_all add: spliced_def put_item_def split: tailref.splits option.splits)

lemma spliced_frame:
  "spliced loc w =
     w\<lparr>lock := lock_cycle (lock w), list_head := list_head (spliced loc w),
       tailptr := item_tailptr loc, item_mem := item_mem (spliced loc w)\<rparr>"
  by (simp add: spliced_def put_item_def split: tailref.splits option.splits)

lemma spliced_empty:
  "tailptr w = ListHead \<Longrightarrow>
   list_head (spliced loc w) = itemlist loc \<and> item_mem (spliced loc w) = item_mem w"
  by (simp add: spliced_def)

lemma spliced_tail:
  "tailptr w = NextOf b \<Longrightarrow> get_item w b = Some it \<Longrightarrow>
   list_head (spliced loc w) = list_head w \<and>
   item_mem (spliced loc w) = (item_mem w)[b := Some (it\<lparr>next_item := itemlist loc\<rparr>)]"
  by (simp add: spliced_def put_item_def)

lemma spliced_ok:
  assumes b: "building w ps cs fs loc"
    and tp: "tailptr w = (if ps = [] then ListHead else NextOf (last ps))"
    and bo: "built_ok cb pbase paramstep fl w cs"
  shows "is_chain (item_mem (spliced loc w)) (list_head (spliced loc w)) (ps @ cs)"
    and "is_chain (item_mem (spliced loc w)) (free w) fs"
    and "built_ok cb pbase paramstep fl (spliced loc w) cs"
    and "items_ok (spliced loc w) (ps @ cs @ fs)"
proof -
  let ?w = "spliced loc w"
  from b have cp: "is_chain (item_mem w) (list_head w) ps"
    and cf: "is_chain (item_mem w) (free w) fs"
    and cc: "is_chain (item_mem w) (itemlist loc) cs"
    and d: "distinct (ps @ cs @ fs)" and ok: "items_ok w (ps @ cs @ fs)"
    by (simp_all add: building_def)
  have all: "is_chain (item_mem ?w) (list_head ?w) (ps @ cs) \<and>
      is_chain (item_mem ?w) (free w) fs \<and> built_ok cb pbase paramstep fl ?w cs \<and>
      items_ok ?w (ps @ cs @ fs)"
  proof (cases "ps = []")
    case True
    with tp have "tailptr w = ListHead" by simp
    then have e: "list_head ?w = itemlist loc" "item_mem ?w = item_mem w"
      by (simp_all add: spliced_empty)
    then have g: "get_item ?w x = get_item w x" for x by (simp add: get_item_def)
    have "built_ok cb pbase paramstep fl ?w cs = built_ok cb pbase paramstep fl w cs"
      by (rule built_ok_cong) (rule g)
    moreover have "items_ok ?w (ps @ cs @ fs) = items_ok w (ps @ cs @ fs)"
      by (rule items_ok_cong) (simp_all add: g)
    ultimately show ?thesis using True e cc cf bo ok by simp
  next
    case False
    let ?b = "last ps"
    from False tp have t: "tailptr w = NextOf ?b" by simp
    from False have bin: "?b \<in> set ps" by simp
    with cp have "cell (item_mem w) ?b \<noteq> None" by (rule chain_cell)
    then obtain it where it: "get_item w ?b = Some it" by (auto simp: get_item_def)
    from spliced_tail [OF t it] have e: "list_head ?w = list_head w"
      "item_mem ?w = (item_mem w)[?b := Some (it\<lparr>next_item := itemlist loc\<rparr>)]"
      by simp_all
    from d have dp: "distinct ps" and dj: "set ps \<inter> set cs = {}"
      and nf: "?b \<notin> set fs" and nc: "?b \<notin> set cs"
      using bin by auto
    from it have c: "cell (item_mem w) ?b = Some it" by (simp add: get_item_def)
    from chain_splice [OF cp False dp dj cc c]
    have 1: "is_chain (item_mem ?w) (list_head ?w) (ps @ cs)" by (simp add: e)
    have 2: "is_chain (item_mem ?w) (free w) fs"
      using cf nf by (simp add: e chain_update_other)
    have g: "x \<noteq> ?b \<Longrightarrow> get_item ?w x = get_item w x" for x
      by (simp add: get_item_def e cell_update)
    have "built_ok cb pbase paramstep fl ?w cs = built_ok cb pbase paramstep fl w cs"
    proof (rule built_ok_cong)
      fix x assume "x \<in> set cs"
      with nc have "x \<noteq> ?b" by auto
      then show "get_item ?w x = get_item w x" by (rule g)
    qed
    with bo have 3: "built_ok cb pbase paramstep fl ?w cs" by simp
    have 4: "items_ok ?w (ps @ cs @ fs)"
      unfolding items_ok_def
    proof
      fix x assume x: "x \<in> set (ps @ cs @ fs)"
      with ok have o: "case get_item w x of None \<Rightarrow> False | Some i \<Rightarrow> item_ok w i"
        by (simp add: items_ok_def)
      have ev: "item_ok ?w i = item_ok w i" for i
        by (rule item_ok_same_events) simp
      show "case get_item ?w x of None \<Rightarrow> False | Some i \<Rightarrow> item_ok ?w i"
      proof (cases "x = ?b")
        case True
        from c have "?b < length (item_mem w)" by (rule cell_Some_less)
        then have "get_item ?w ?b = Some (it\<lparr>next_item := itemlist loc\<rparr>)"
          by (simp add: get_item_def e cell_update)
        with True o it show ?thesis by (simp add: ev)
      next
        case False
        with o g [OF False] show ?thesis by (simp add: ev cong: option.case_cong)
      qed
    qed
    from 1 2 3 4 show ?thesis by simp
  qed
  from all show "is_chain (item_mem ?w) (list_head ?w) (ps @ cs)"
    and "is_chain (item_mem ?w) (free w) fs"
    and "built_ok cb pbase paramstep fl ?w cs"
    and "items_ok ?w (ps @ cs @ fs)"
    by simp_all
qed

lemma chain_first: "is_chain m p cs \<Longrightarrow> p = (case cs of [] \<Rightarrow> None | c # _ \<Rightarrow> Some c)"
  by (cases cs) simp_all

lemma get_item_items_upd: "get_item (w\<lparr>items := n\<rparr>) x = get_item w x"
  by (simp add: get_item_def)

lemma items_ok_items [simp]: "items_ok (w\<lparr>items := n\<rparr>) xs = items_ok w xs"
  by (rule items_ok_cong) (simp_all add: get_item_def)

lemma built_ok_items [simp]:
  "built_ok cb pbase paramstep fl (w\<lparr>items := n\<rparr>) bs = built_ok cb pbase paramstep fl w bs"
  by (rule built_ok_cong) (simp add: get_item_def)

lemma enqueued_intro:
  assumes "untouched w w1"
  shows "enqueued w ((spliced loc w1)\<lparr>items := n\<rparr>)"
proof -
  from assms have e: "w1 = w\<lparr>free := free w1, item_mem := item_mem w1, alloc_plan := alloc_plan w1\<rparr>"
    by (simp add: untouched_def)
  have l: "lock w1 = lock w" using assms by (rule untouched_fields)
  have "(spliced loc w1)\<lparr>items := n\<rparr> =
      w1\<lparr>lock := lock_cycle (lock w1), list_head := list_head (spliced loc w1),
         tailptr := item_tailptr loc, item_mem := item_mem (spliced loc w1), items := n\<rparr>"
    by (subst spliced_frame) simp
  also have "\<dots> = w\<lparr>lock := lock_cycle (lock w), list_head := list_head (spliced loc w1),
         tailptr := item_tailptr loc, free := free w1, items := n,
         item_mem := item_mem (spliced loc w1), alloc_plan := alloc_plan w1\<rparr>"
    unfolding l by (subst e) simp
  finally show ?thesis by (simp add: enqueued_def)
qed

lemma build_and_enqueue_ok:
  assumes q: "queue_ok w ps fs" and al: "\<forall>b \<in> set (alloc_plan w). b"
  shows "\<exists>cs loc w3. build_and_enqueue w cb numitems pbase paramstep fl = Inr (Some loc, w3) \<and>
           length cs = nat (sint numitems) \<and>
           is_chain (item_mem w3) (list_head w3) (ps @ cs) \<and>
           is_chain (item_mem w3) (free w3) (drop (nat (sint numitems)) fs) \<and>
           distinct (ps @ cs @ drop (nat (sint numitems)) fs) \<and>
           built_ok cb pbase paramstep fl w3 cs \<and>
           items_ok w3 (ps @ cs @ drop (nat (sint numitems)) fs) \<and>
           items w3 = items w + numitems \<and>
           tailptr w3 = (if cs = [] then LocalItemlist else NextOf (last cs)) \<and>
           itemlist loc = (case cs of [] \<Rightarrow> None | c # _ \<Rightarrow> Some c) \<and>
           enqueued w w3"
proof -
  let ?k = "nat (sint numitems)"
  let ?loc0 = "\<lparr>itemlist = None, item_tailptr = LocalItemlist, parambase = pbase\<rparr>"
  from q have b0: "building w ps [] fs ?loc0"
    by (simp add: queue_ok_def building_def)
  have bo0: "built_ok cb pbase paramstep fl w []" by (simp add: built_ok_def)
  have pb0: "parambase ?loc0 = pbase + of_nat (length ([]::nat list)) * scast paramstep" by simp
  from build_items_loop [OF b0 bo0 pb0 al, of ?k] obtain cs loc w1
    where r: "build_items ?k cb paramstep fl ?loc0 w = Inr (Some loc, w1)"
      and len: "length cs = ?k"
      and b1: "building w1 ps cs (drop ?k fs) loc"
      and bo1: "built_ok cb pbase paramstep fl w1 cs"
      and un: "untouched w w1"
    by auto
  note f = untouched_fields [OF un]
  from q f have tp: "tailptr w1 = (if ps = [] then ListHead else NextOf (last ps))"
    and lr: "lock_ready (lock w1)"
    by (simp_all add: queue_ok_def)
  from b1 have cc: "is_chain (item_mem w1) (itemlist loc) cs"
    and d: "distinct (ps @ cs @ drop ?k fs)"
    and itp: "item_tailptr loc = (if cs = [] then LocalItemlist else NextOf (last cs))"
    by (simp_all add: building_def)
  have nl: "tailptr w1 \<noteq> LocalItemlist" using tp by simp
  have tb: "get_item w1 b \<noteq> None" if "tailptr w1 = NextOf b" for b
  proof -
    from that tp have "ps \<noteq> []" "b = last ps" by (auto split: if_splits)
    then have "b \<in> set ps" by simp
    moreover from b1 have "is_chain (item_mem w1) (list_head w1) ps" by (simp add: building_def)
    ultimately have "cell (item_mem w1) b \<noteq> None" by (simp add: chain_cell)
    then show ?thesis by (simp add: get_item_def)
  qed
  from lr nl tb have en: "enqueue_chain loc w1 = Inr (spliced loc w1)"
    by (rule enqueue_chain_eq)
  let ?w3 = "(spliced loc w1)\<lparr>items := items w + numitems\<rparr>"
  have run: "build_and_enqueue w cb numitems pbase paramstep fl = Inr (Some loc, ?w3)"
    using r en f(4)
    by (simp add: build_and_enqueue_def osd_interlocked_add_def osd_sync_add_def)
  note s = spliced_ok [OF b1 tp bo1]
  have 1: "is_chain (item_mem ?w3) (list_head ?w3) (ps @ cs)" using s(1) by simp
  have 2: "is_chain (item_mem ?w3) (free ?w3) (drop ?k fs)" using s(2) by simp
  have 3: "built_ok cb pbase paramstep fl ?w3 cs" using s(3) by simp
  have 4: "items_ok ?w3 (ps @ cs @ drop ?k fs)" using s(4) by simp
  have 5: "items ?w3 = items w + numitems" by simp
  have 6: "tailptr ?w3 = (if cs = [] then LocalItemlist else NextOf (last cs))"
    using itp by simp
  from cc have 7: "itemlist loc = (case cs of [] \<Rightarrow> None | c # _ \<Rightarrow> Some c)"
    by (rule chain_first)
  from un have 8: "enqueued w ?w3" by (rule enqueued_intro)
  from run len 1 2 d 3 4 5 6 7 8 show ?thesis by blast
qed

lemma events_kept_refl: "events_kept w w"
  by (simp add: events_kept_def)

lemma events_kept_set:
  assumes "get_event w e = Some ev" and "events_kept (w\<lparr>event_mem := (event_mem w)[e := Some v]\<rparr>) w'"
  shows "events_kept w w'"
proof -
  let ?w1 = "w\<lparr>event_mem := (event_mem w)[e := Some v]\<rparr>"
  from assms(2) have e: "w' = ?w1\<lparr>event_mem := event_mem w'\<rparr>"
    and k: "\<forall>x. get_event ?w1 x \<noteq> None \<longrightarrow> get_event w' x \<noteq> None"
    by (simp_all add: events_kept_def)
  from e have "w' = w\<lparr>event_mem := event_mem w'\<rparr>" by simp
  moreover have "get_event w' x \<noteq> None" if "get_event w x \<noteq> None" for x
  proof -
    from that have "get_event ?w1 x \<noteq> None" by (simp add: get_event_update)
    with k show ?thesis by simp
  qed
  ultimately show ?thesis by (simp add: events_kept_def)
qed

lemma wake_threads_ok:
  assumes "\<forall>t \<in> set ts. case wakeevent t of None \<Rightarrow> False | Some e \<Rightarrow> get_event w e \<noteq> None"
  shows "\<exists>w'. wake_threads ts n w = Inr w' \<and> events_kept w w'"
  using assms
proof (induction ts arbitrary: n w)
  case Nil
  then show ?case by (simp add: events_kept_refl)
next
  case (Cons t ts)
  from Cons.prems have rest:
    "\<forall>t \<in> set ts. case wakeevent t of None \<Rightarrow> False | Some e \<Rightarrow> get_event w e \<noteq> None"
    by simp
  show ?case
  proof (cases "active t")
    case True
    with Cons.IH [OF rest, of n] show ?thesis by simp
  next
    case False
    from Cons.prems obtain e ev where e: "wakeevent t = Some e" "get_event w e = Some ev"
      by (auto split: option.splits)
    let ?w1 = "w\<lparr>event_mem := (event_mem w)[e := Some (ev\<lparr>signalled := True\<rparr>)]\<rparr>"
    from e have s: "osd_event_set (wakeevent t) w = Inr ?w1" by (simp add: event_set_eq)
    show ?thesis
    proof (cases "n - 1 = 0")
      case True
      have "events_kept ?w1 ?w1" by (rule events_kept_refl)
      with e(2) have "events_kept w ?w1" by (rule events_kept_set)
      with False s True show ?thesis by simp
    next
      case nz: False
      have "\<forall>t \<in> set ts. case wakeevent t of None \<Rightarrow> False | Some e \<Rightarrow> get_event ?w1 e \<noteq> None"
        using rest by (auto simp: get_event_update split: option.splits)
      from Cons.IH [OF this, of "n - 1"] obtain w'
        where r: "wake_threads ts (n - 1) ?w1 = Inr w'" and k: "events_kept ?w1 w'"
        by blast
      from e(2) k have "events_kept w w'" by (rule events_kept_set)
      with False s nz r show ?thesis by simp
    qed
  qed
qed

lemma enqueued_fields:
  assumes "enqueued w w'"
  shows "threads w' = threads w" "thread w' = thread w" "livethreads w' = livethreads w"
    "waiting w' = waiting w" "doneevent w' = doneevent w" "event_mem w' = event_mem w"
    "flags w' = flags w" "lock w' = lock_cycle (lock w)"
proof -
  from assms have e: "w' = w\<lparr>lock := lock_cycle (lock w), list_head := list_head w',
      tailptr := tailptr w', free := free w', items := items w', item_mem := item_mem w',
      alloc_plan := alloc_plan w'\<rparr>"
    by (simp add: enqueued_def)
  show "threads w' = threads w" by (subst e) simp
  show "thread w' = thread w" by (subst e) simp
  show "livethreads w' = livethreads w" by (subst e) simp
  show "waiting w' = waiting w" by (subst e) simp
  show "doneevent w' = doneevent w" by (subst e) simp
  show "event_mem w' = event_mem w" by (subst e) simp
  show "flags w' = flags w" by (subst e) simp
  show "lock w' = lock_cycle (lock w)" by (subst e) simp
qed

lemma submit_after_enqueue:
  assumes be: "build_and_enqueue w cb numitems pbase paramstep fl = Inr (Some loc, w3)"
    and en: "enqueued w w3" and il: "itemlist loc = (case cs of [] \<Rightarrow> None | c # _ \<Rightarrow> Some c)"
    and tk: "threads_ok w"
  shows "threads w = 0 \<Longrightarrow>
           osd_work_item_queue_multiple others w cb numitems pbase paramstep fl =
             bindf (worker_thread_process others w3) (\<lambda>w5. Inr (submit_handle fl cs, w5))"
    and "threads w \<noteq> 0 \<Longrightarrow>
           \<exists>w5. osd_work_item_queue_multiple others w cb numitems pbase paramstep fl =
                  Inr (submit_handle fl cs, w5) \<and> events_kept w3 w5"
proof -
  note f = enqueued_fields [OF en]
  have h: "(if fl AND WORK_ITEM_FLAG_AUTO_RELEASE \<noteq> 0 then None else itemlist loc) =
      submit_handle fl cs"
    by (simp add: submit_handle_def il)
  {
    assume z: "threads w = 0"
    then have "\<not> livethreads w3 < threads w3" by (simp add: f)
    with z show "osd_work_item_queue_multiple others w cb numitems pbase paramstep fl =
             bindf (worker_thread_process others w3) (\<lambda>w5. Inr (submit_handle fl cs, w5))"
      by (simp add: osd_work_item_queue_multiple_def be f h)
  }
  {
    assume nz: "threads w \<noteq> 0"
    have "\<exists>w4. (if livethreads w3 < threads w3
                then bindf (thread_records w3) (\<lambda>ts. wake_threads ts numitems w3)
                else Inr w3) = Inr w4 \<and> events_kept w3 w4"
    proof (cases "livethreads w3 < threads w3")
      case False
      then show ?thesis by (simp add: events_kept_refl)
    next
      case True
      from tk nz obtain ts where ts: "thread w = Some ts" "unat (threads w) \<le> length ts"
        and ev: "\<forall>t \<in> set (take (unat (threads w)) ts).
             case wakeevent t of None \<Rightarrow> False | Some e \<Rightarrow> get_event w e \<noteq> None"
        by (auto simp: threads_ok_def split: option.splits)
      from ts nz have tr: "thread_records w3 = Inr (take (unat (threads w)) ts)"
        by (simp add: thread_records_def f)
      have g: "get_event w3 e = get_event w e" for e by (simp add: get_event_def f)
      from ev have "\<forall>t \<in> set (take (unat (threads w)) ts).
             case wakeevent t of None \<Rightarrow> False | Some e \<Rightarrow> get_event w3 e \<noteq> None"
        by (simp add: g cong: option.case_cong)
      from wake_threads_ok [OF this, of numitems] True tr show ?thesis by simp
    qed
    then obtain w4 where w4: "(if livethreads w3 < threads w3
                then bindf (thread_records w3) (\<lambda>ts. wake_threads ts numitems w3)
                else Inr w3) = Inr w4" and k: "events_kept w3 w4"
      by blast
    from k have e4: "w4 = w3\<lparr>event_mem := event_mem w4\<rparr>" by (simp add: events_kept_def)
    have "threads w4 = threads w3" by (subst e4) simp
    with nz have t4: "threads w4 \<noteq> 0" by (simp add: f)
    have "osd_work_item_queue_multiple others w cb numitems pbase paramstep fl =
        Inr (submit_handle fl cs, w4)"
      unfolding osd_work_item_queue_multiple_def be
      using w4 t4 h by simp
    with k show "\<exists>w5. osd_work_item_queue_multiple others w cb numitems pbase paramstep fl =
                  Inr (submit_handle fl cs, w5) \<and> events_kept w3 w5"
      by blast
  }
qed


lemma events_kept_fields:
  assumes "events_kept w w'"
  shows "list_head w' = list_head w" "item_mem w' = item_mem w" "items w' = items w"
    "tailptr w' = tailptr w" "free w' = free w"
proof -
  from assms have e: "w' = w\<lparr>event_mem := event_mem w'\<rparr>" by (simp add: events_kept_def)
  show "list_head w' = list_head w" by (subst e) simp
  show "item_mem w' = item_mem w" by (subst e) simp
  show "items w' = items w" by (subst e) simp
  show "tailptr w' = tailptr w" by (subst e) simp
  show "free w' = free w" by (subst e) simp
qed



subsection \<open>Submission\<close>

lemma two_submissions_eval:
  "case osd_work_queue_alloc three_cpus WORK_QUEUE_FLAG_MULTI (boot [] 1000) of
     Inl f \<Rightarrow> False
   | Inr (h, q) \<Rightarrow> h = TheQueue \<and>
       (case osd_work_item_queue_multiple (\<lambda>w. w) q (\<lambda>x. x + 1) 2 10 4 0 of
          Inl f \<Rightarrow> False
        | Inr (r, w) \<Rightarrow> r = Some 0 \<and> queue_ok w [0, 1] [] \<and> alloc_plan w = [] \<and>
            threads w = 2 \<and> items w = 2 \<and>
            (case osd_work_item_queue_multiple (\<lambda>w. w) w (\<lambda>x. x * x) 3 100 (- 8) 0 of
               Inl f \<Rightarrow> False
             | Inr (r2, w2) \<Rightarrow> r2 = Some 2 \<and>
                 is_chain (item_mem w2) (list_head w2) [0, 1, 2, 3, 4] \<and>
                 map (item_field param w2) [0, 1, 2, 3, 4] =
                   [Some 10, Some 14, Some 100, Some 92, Some 84]))"
  by code_simp

text \<open>
  C5. A submission to a well-formed queue with the pending list \<open>ps\<close>, when every allocation
  succeeds. Lines 447 to 496 build a chain \<open>cs\<close> of \<open>numitems\<close> items, none of them pending,
  whose \<open>i\<close>-th item has the callback, the parameter \<open>pbase + i * paramstep\<close>, a null
  result, \<^verbatim>\<open>done\<close> false and the flags, and leave the pending list \<open>ps @ cs\<close> and
  \<open>items\<close> increased by \<open>numitems\<close>. On a queue with threads the call returns in that
  state, but for the events it has set; on a queue without threads it drains that state. The
  value returned is the first item of \<open>cs\<close>, or null when the flags have AUTO_RELEASE.
\<close>

theorem submit_builds_and_enqueues:
  assumes q: "queue_ok w ps fs" and al: "\<forall>b \<in> set (alloc_plan w). b"
  shows "\<exists>cs loc w3.
           build_and_enqueue w cb numitems pbase paramstep fl = Inr (Some loc, w3) \<and>
           length cs = nat (sint numitems) \<and> distinct (ps @ cs) \<and>
           is_chain (item_mem w3) (list_head w3) (ps @ cs) \<and>
           built_ok cb pbase paramstep fl w3 cs \<and>
           items w3 = items w + numitems \<and>
           (threads w \<noteq> 0 \<longrightarrow>
              (\<exists>w5. osd_work_item_queue_multiple others w cb numitems pbase paramstep fl =
                      Inr (submit_handle fl cs, w5) \<and>
                    list_head w5 = list_head w3 \<and> item_mem w5 = item_mem w3 \<and>
                    items w5 = items w3)) \<and>
           (threads w = 0 \<longrightarrow>
              osd_work_item_queue_multiple others w cb numitems pbase paramstep fl =
                bindf (worker_thread_process others w3) (\<lambda>w5. Inr (submit_handle fl cs, w5)))"
proof -
  from build_and_enqueue_ok [OF q al, of cb numitems pbase paramstep fl] obtain cs loc w3
    where be: "build_and_enqueue w cb numitems pbase paramstep fl = Inr (Some loc, w3)"
      and len: "length cs = nat (sint numitems)"
      and ch: "is_chain (item_mem w3) (list_head w3) (ps @ cs)"
      and d: "distinct (ps @ cs @ drop (nat (sint numitems)) fs)"
      and bo: "built_ok cb pbase paramstep fl w3 cs"
      and it: "items w3 = items w + numitems"
      and il: "itemlist loc = (case cs of [] \<Rightarrow> None | c # _ \<Rightarrow> Some c)"
      and en: "enqueued w w3"
    by blast
  from q have tk: "threads_ok w" by (simp add: queue_ok_def)
  note sa = submit_after_enqueue [OF be en il tk, of others]
  from d have d': "distinct (ps @ cs)" by auto
  have a: "threads w \<noteq> 0 \<longrightarrow>
              (\<exists>w5. osd_work_item_queue_multiple others w cb numitems pbase paramstep fl =
                      Inr (submit_handle fl cs, w5) \<and>
                    list_head w5 = list_head w3 \<and> item_mem w5 = item_mem w3 \<and>
                    items w5 = items w3)"
  proof
    assume "threads w \<noteq> 0"
    from sa(2) [OF this] obtain w5
      where r: "osd_work_item_queue_multiple others w cb numitems pbase paramstep fl =
                  Inr (submit_handle fl cs, w5)" and k: "events_kept w3 w5"
      by blast
    from r events_kept_fields [OF k]
    show "\<exists>w5. osd_work_item_queue_multiple others w cb numitems pbase paramstep fl =
                      Inr (submit_handle fl cs, w5) \<and>
                    list_head w5 = list_head w3 \<and> item_mem w5 = item_mem w3 \<and>
                    items w5 = items w3"
      by blast
  qed
  have b: "threads w = 0 \<longrightarrow>
              osd_work_item_queue_multiple others w cb numitems pbase paramstep fl =
                bindf (worker_thread_process others w3) (\<lambda>w5. Inr (submit_handle fl cs, w5))"
    using sa(1) by blast
  from be len d' ch bo it a b show ?thesis by blast
qed

theorem submit_builds_and_enqueues_witness:
  "\<exists>q w cs loc w3 w5.
     osd_work_queue_alloc three_cpus WORK_QUEUE_FLAG_MULTI (boot [] 1000) = Inr (TheQueue, q) \<and>
     osd_work_item_queue_multiple (\<lambda>w. w) q (\<lambda>x. x + 1) 2 10 4 0 = Inr (Some 0, w) \<and>
     queue_ok w [0, 1] [] \<and> alloc_plan w = [] \<and> threads w = 2 \<and>
     build_and_enqueue w (\<lambda>x. x * x) 3 100 (- 8) 0 = Inr (Some loc, w3) \<and>
     length cs = 3 \<and> distinct ([0, 1] @ cs) \<and>
     is_chain (item_mem w3) (list_head w3) ([0, 1] @ cs) \<and>
     built_ok (\<lambda>x. x * x) 100 (- 8) 0 w3 cs \<and> items w3 = 5 \<and>
     osd_work_item_queue_multiple (\<lambda>w. w) w (\<lambda>x. x * x) 3 100 (- 8) 0 = Inr (Some 2, w5) \<and>
     submit_handle 0 cs = Some 2 \<and>
     list_head w5 = list_head w3 \<and> item_mem w5 = item_mem w3 \<and> items w5 = 5 \<and>
     is_chain (item_mem w5) (list_head w5) [0, 1, 2, 3, 4] \<and>
     map (item_field param w5) [0, 1, 2, 3, 4] = [Some 10, Some 14, Some 100, Some 92, Some 84]"
proof -
  from two_submissions_eval [THEN returnsE] obtain h q
    where a: "osd_work_queue_alloc three_cpus WORK_QUEUE_FLAG_MULTI (boot [] 1000) = Inr (h, q)"
      and h: "h = TheQueue"
      and b: "case osd_work_item_queue_multiple (\<lambda>w. w) q (\<lambda>x. x + 1) 2 10 4 0 of
          Inl f \<Rightarrow> False
        | Inr (r, w) \<Rightarrow> r = Some 0 \<and> queue_ok w [0, 1] [] \<and> alloc_plan w = [] \<and>
            threads w = 2 \<and> items w = 2 \<and>
            (case osd_work_item_queue_multiple (\<lambda>w. w) w (\<lambda>x. x * x) 3 100 (- 8) 0 of
               Inl f \<Rightarrow> False
             | Inr (r2, w2) \<Rightarrow> r2 = Some 2 \<and>
                 is_chain (item_mem w2) (list_head w2) [0, 1, 2, 3, 4] \<and>
                 map (item_field param w2) [0, 1, 2, 3, 4] =
                   [Some 10, Some 14, Some 100, Some 92, Some 84])"
    by blast
  from b [THEN returnsE] obtain r w
    where c: "osd_work_item_queue_multiple (\<lambda>w. w) q (\<lambda>x. x + 1) 2 10 4 0 = Inr (r, w)"
      and w: "r = Some 0" "queue_ok w [0, 1] []" "alloc_plan w = []" "threads w = 2"
        "items w = 2"
      and d: "case osd_work_item_queue_multiple (\<lambda>w. w) w (\<lambda>x. x * x) 3 100 (- 8) 0 of
               Inl f \<Rightarrow> False
             | Inr (r2, w2) \<Rightarrow> r2 = Some 2 \<and>
                 is_chain (item_mem w2) (list_head w2) [0, 1, 2, 3, 4] \<and>
                 map (item_field param w2) [0, 1, 2, 3, 4] =
                   [Some 10, Some 14, Some 100, Some 92, Some 84]"
    by blast
  from d [THEN returnsE] obtain r2 w2
    where e: "osd_work_item_queue_multiple (\<lambda>w. w) w (\<lambda>x. x * x) 3 100 (- 8) 0 = Inr (r2, w2)"
      and w2: "r2 = Some 2" "is_chain (item_mem w2) (list_head w2) [0, 1, 2, 3, 4]"
        "map (item_field param w2) [0, 1, 2, 3, 4] =
           [Some 10, Some 14, Some 100, Some 92, Some 84]"
    by (elim exE conjE) (rule that; assumption)
  have al: "\<forall>b \<in> set (alloc_plan w). b" using w(3) by simp
  have nz: "threads w \<noteq> 0" using w(4) by simp
  have n3: "nat (sint (3::32 word)) = 3" by simp
  from submit_builds_and_enqueues [OF w(2) al, of "\<lambda>x. x * x" 3 100 "- 8" 0 "\<lambda>w. w"] nz
  obtain cs loc w3 w5
    where be: "build_and_enqueue w (\<lambda>x. x * x) 3 100 (- 8) 0 = Inr (Some loc, w3)"
      and cs: "length cs = 3" "distinct ([0, 1] @ cs)"
        "is_chain (item_mem w3) (list_head w3) ([0, 1] @ cs)"
        "built_ok (\<lambda>x. x * x) 100 (- 8) 0 w3 cs" "items w3 = items w + 3"
      and s: "osd_work_item_queue_multiple (\<lambda>w. w) w (\<lambda>x. x * x) 3 100 (- 8) 0 =
                Inr (submit_handle 0 cs, w5)"
        "list_head w5 = list_head w3" "item_mem w5 = item_mem w3" "items w5 = items w3"
    unfolding n3 by blast
  from s(1) e w2(1) have eq: "submit_handle 0 cs = Some 2" "w5 = w2" by simp_all
  from cs(5) w(5) have i3: "items w3 = 5" by simp
  with s(4) have i5: "items w5 = 5" by simp
  from a h c w be cs(1-4) i3 s eq i5 w2(2,3) show ?thesis
    by (intro exI [of _ q] exI [of _ w] exI [of _ cs] exI [of _ loc] exI [of _ w3]
        exI [of _ w5]) simp
qed




end
